theory Spec2Isabelle
  imports Main
begin

section \<open>Data model (types.ts)\<close>

datatype Difficulty = Easy | Medium | Hard

datatype Platform = GFG | LeetCode | HackerRank | Codeforces

text \<open>
  \<^verbatim>\<open>interface Problem { id; title; url; platform; difficulty; completed; note?: string }\<close>
  and \<^verbatim>\<open>interface Category { id; title; problems: Problem[] }\<close>.
  Field names carry a prefix because the two interfaces and the table rows share
  the names \<^verbatim>\<open>id\<close> and \<^verbatim>\<open>title\<close>. An absent (undefined or null) note is \<open>None\<close>.
\<close>

record Problem =
  p_id :: string
  p_title :: string
  p_url :: string
  p_platform :: Platform
  p_difficulty :: Difficulty
  p_completed :: bool
  p_note :: "string option"

record Category =
  c_id :: string
  c_title :: string
  c_problems :: "Problem list"

section \<open>The remote store\<close>

text \<open>
  The rows of the tables \<^verbatim>\<open>categories\<close>, \<^verbatim>\<open>problems\<close> and
  \<^verbatim>\<open>user_problem_progress\<close>, with the columns storage.ts reads and writes, and
  the user ids listed in \<^verbatim>\<open>app_admins\<close>. The schema file is not part of the
  sources: a table is the list of its rows, and no foreign-key cascade is modelled.
\<close>

record category_row =
  cr_id :: string
  cr_title :: string
  cr_order_index :: nat
  cr_user_id :: string

record problem_row =
  pr_id :: string
  pr_category_id :: string
  pr_title :: string
  pr_url :: string
  pr_platform :: Platform
  pr_difficulty :: Difficulty
  pr_completed :: bool
  pr_note :: "string option"
  pr_user_id :: string

record progress_row =
  up_user_id :: string
  up_problem_id :: string
  up_completed :: bool
  up_note :: "string option"

record remote_db =
  categories_tbl :: "category_row list"
  problems_tbl :: "problem_row list"
  progress_tbl :: "progress_row list"
  app_admins :: "string list"

text \<open>
  Every call storage.ts makes on the Supabase client. A select carries its
  \<^verbatim>\<open>.eq('user_id', ...)\<close> filter; a delete carries its \<^verbatim>\<open>.in('id', ...)\<close> list and
  its \<^verbatim>\<open>.eq('user_id', ...)\<close> filter; an upsert carries its payload.
\<close>

datatype request =
    GetSession
  | SelectAdmin string
  | SelectCategories "string option"
  | SelectProblems "string option"
  | SelectProgress string
  | SelectCategoryIds string
  | SelectProblemIds string
  | UpsertCategories "category_row list"
  | UpsertProblems "problem_row list"
  | DeleteProblems "string list" string
  | DeleteCategories "string list" string
  | UpsertProgress "progress_row list"

text \<open>
  What a failed call throws (or returns as \<^verbatim>\<open>error\<close>, which the caller throws):
  whether it is an instance of \<^verbatim>\<open>Error\<close>, and its message.
\<close>

record js_error =
  is_Error :: bool
  message :: string

text \<open>
  The surroundings of one operation: the user id of the current session, if any;
  which remote calls fail, and with what; whether the browser's local storage throws.
\<close>

record env =
  session :: "string option"
  fails :: "request \<Rightarrow> js_error option"
  getItem_throws :: bool
  setItem_throws :: bool

text \<open>\<^verbatim>\<open>e.message.includes(sub)\<close>: \<open>sub\<close> occurs in the message.\<close>

fun message_includes :: "string \<Rightarrow> string \<Rightarrow> bool" where
  "message_includes [] sub = (sub = [])"
| "message_includes (c # cs) sub = (take (length sub) (c # cs) = sub \<or> message_includes cs sub)"

subsection \<open>Effect of a write on the tables\<close>

text \<open>
  \<^verbatim>\<open>upsert(payload, { onConflict: key })\<close>: each payload row replaces the row with
  the same key, or is inserted when there is none. Payload rows are applied in order.
\<close>

definition upsert_row :: "('r \<Rightarrow> 'k) \<Rightarrow> 'r \<Rightarrow> 'r list \<Rightarrow> 'r list" where
  "upsert_row key r tbl =
     (if key r \<in> key ` set tbl then map (\<lambda>x. if key x = key r then r else x) tbl
      else tbl @ [r])"

definition upsert :: "('r \<Rightarrow> 'k) \<Rightarrow> 'r list \<Rightarrow> 'r list \<Rightarrow> 'r list" where
  "upsert key rows tbl = fold (upsert_row key) rows tbl"

definition progress_key :: "progress_row \<Rightarrow> string \<times> string" where
  "progress_key r = (up_user_id r, up_problem_id r)"

fun apply_request :: "request \<Rightarrow> remote_db \<Rightarrow> remote_db" where
  "apply_request (UpsertCategories rows) db =
     db\<lparr>categories_tbl := upsert cr_id rows (categories_tbl db)\<rparr>"
| "apply_request (UpsertProblems rows) db =
     db\<lparr>problems_tbl := upsert pr_id rows (problems_tbl db)\<rparr>"
| "apply_request (DeleteProblems ids uid) db =
     db\<lparr>problems_tbl := filter (\<lambda>r. \<not> (pr_id r \<in> set ids \<and> pr_user_id r = uid)) (problems_tbl db)\<rparr>"
| "apply_request (DeleteCategories ids uid) db =
     db\<lparr>categories_tbl := filter (\<lambda>r. \<not> (cr_id r \<in> set ids \<and> cr_user_id r = uid)) (categories_tbl db)\<rparr>"
| "apply_request (UpsertProgress rows) db =
     db\<lparr>progress_tbl := upsert progress_key rows (progress_tbl db)\<rparr>"
| "apply_request _ db = db"

subsection \<open>getIsAdminUser\<close>

text \<open>
  Any failure gives \<^verbatim>\<open>false\<close>; so does a missing session or an empty user id
  (\<^verbatim>\<open>if (!userId) return false\<close>).
\<close>

definition getIsAdminUser :: "env \<Rightarrow> remote_db \<Rightarrow> bool" where
  "getIsAdminUser e db =
     (case fails e GetSession of
        Some _ \<Rightarrow> False
      | None \<Rightarrow>
          (case session e of
             None \<Rightarrow> False
           | Some userId \<Rightarrow>
               if userId = [] then False
               else (case fails e (SelectAdmin userId) of
                       Some _ \<Rightarrow> False
                     | None \<Rightarrow> userId \<in> set (app_admins db))))"

section \<open>loadData\<close>

definition STORAGE_KEY :: string where
  "STORAGE_KEY = ''coding-platform-data-v1''"

text \<open>
  The local storage slot under \<^verbatim>\<open>STORAGE_KEY\<close>: nothing stored, the JSON text of a
  category list (kept as the list: \<^verbatim>\<open>JSON.parse\<close> inverts \<^verbatim>\<open>JSON.stringify\<close>), or
  text on which \<^verbatim>\<open>JSON.parse\<close> or the \<^verbatim>\<open>.length\<close> read throws.
\<close>

datatype slot = Absent | Snapshot "Category list" | Unparsable

definition sample_catalog :: "Category list" where
  "sample_catalog =
     [\<lparr>c_id = ''default-1'', c_title = ''Sample Problems'',
       c_problems =
         [\<lparr>p_id = ''p1'', p_title = ''Two Sum'',
           p_url = ''https://leetcode.com/problems/two-sum/'',
           p_platform = LeetCode, p_difficulty = Easy, p_completed = False, p_note = Some ''''\<rparr>,
          \<lparr>p_id = ''p2'', p_title = ''Add Two Numbers'',
           p_url = ''https://leetcode.com/problems/add-two-numbers/'',
           p_platform = LeetCode, p_difficulty = Medium, p_completed = False, p_note = Some ''''\<rparr>]\<rparr>]"

text \<open>The admin branch: the tree is projected from the admin's own rows.\<close>

definition admin_problem :: "problem_row \<Rightarrow> Problem" where
  "admin_problem prob =
     \<lparr>p_id = pr_id prob, p_title = pr_title prob, p_url = pr_url prob,
      p_platform = pr_platform prob, p_difficulty = pr_difficulty prob,
      p_completed = pr_completed prob, p_note = pr_note prob\<rparr>"

definition load_admin :: "env \<Rightarrow> string \<Rightarrow> remote_db \<Rightarrow> js_error + Category list" where
  "load_admin e currentUserId db =
     (case fails e (SelectCategories (Some currentUserId)) of
        Some categoriesError \<Rightarrow> Inl categoriesError
      | None \<Rightarrow>
          (case fails e (SelectProblems (Some currentUserId)) of
             Some problemsError \<Rightarrow> Inl problemsError
           | None \<Rightarrow>
               (let categoriesData =
                      sort_key cr_order_index
                        (filter (\<lambda>r. cr_user_id r = currentUserId) (categories_tbl db));
                    problemsData = filter (\<lambda>r. pr_user_id r = currentUserId) (problems_tbl db)
                in Inr (map (\<lambda>cat.
                      \<lparr>c_id = cr_id cat, c_title = cr_title cat,
                       c_problems =
                         map admin_problem
                           (filter (\<lambda>prob. pr_category_id prob = cr_id cat) problemsData)\<rparr>)
                    categoriesData))))"

text \<open>
  The sub-user branch. \<open>progressByProblem\<close> is the \<^verbatim>\<open>Map\<close> built by
  \<^verbatim>\<open>forEach(row => set(row.problem_id, { completed: !!row.completed, note: row.note ?? '' }))\<close>:
  a later row for the same problem overwrites an earlier one.
\<close>

definition progressByProblem :: "progress_row list \<Rightarrow> string \<rightharpoonup> bool \<times> string" where
  "progressByProblem progressData =
     fold (\<lambda>row m. m(up_problem_id row \<mapsto>
              (up_completed row, case up_note row of None \<Rightarrow> '''' | Some n \<Rightarrow> n)))
       progressData Map.empty"

definition overlay_problem :: "(string \<rightharpoonup> bool \<times> string) \<Rightarrow> problem_row \<Rightarrow> Problem" where
  "overlay_problem m prob =
     (let overlay = m (pr_id prob)
      in \<lparr>p_id = pr_id prob, p_title = pr_title prob, p_url = pr_url prob,
          p_platform = pr_platform prob, p_difficulty = pr_difficulty prob,
          p_completed = (case overlay of Some ov \<Rightarrow> fst ov | None \<Rightarrow> False),
          p_note = Some (case overlay of Some ov \<Rightarrow> snd ov | None \<Rightarrow> '''')\<rparr>)"

definition load_subuser :: "env \<Rightarrow> string \<Rightarrow> remote_db \<Rightarrow> js_error + Category list" where
  "load_subuser e currentUserId db =
     (case fails e (SelectCategories None) of
        Some categoriesError \<Rightarrow> Inl categoriesError
      | None \<Rightarrow>
          (case fails e (SelectProblems None) of
             Some problemsError \<Rightarrow> Inl problemsError
           | None \<Rightarrow>
               (case fails e (SelectProgress currentUserId) of
                  Some progressError \<Rightarrow> Inl progressError
                | None \<Rightarrow>
                    (let categoriesData = sort_key cr_order_index (categories_tbl db);
                         problemsData = problems_tbl db;
                         progressData =
                           filter (\<lambda>r. up_user_id r = currentUserId) (progress_tbl db);
                         m = progressByProblem progressData
                     in Inr (map (\<lambda>cat.
                           \<lparr>c_id = cr_id cat, c_title = cr_title cat,
                            c_problems =
                              map (overlay_problem m)
                                (filter (\<lambda>prob. pr_category_id prob = cr_id cat) problemsData)\<rparr>)
                         categoriesData)))))"

text \<open>
  The first \<^verbatim>\<open>try\<close> block: \<open>Inl\<close> is a throw, \<open>Inr None\<close> is falling out of the
  block (no session), \<open>Inr (Some cs)\<close> is \<^verbatim>\<open>return categories\<close>. A select that
  does not fail yields an array, so the \<^verbatim>\<open>if (categoriesData && problemsData)\<close> test
  passes.
\<close>

definition load_remote :: "env \<Rightarrow> remote_db \<Rightarrow> js_error + Category list option" where
  "load_remote e db =
     (case fails e GetSession of
        Some err \<Rightarrow> Inl err
      | None \<Rightarrow>
          (case session e of
             None \<Rightarrow> Inr None
           | Some currentUserId \<Rightarrow>
               (case (if getIsAdminUser e db then load_admin e currentUserId db
                      else load_subuser e currentUserId db) of
                  Inl err \<Rightarrow> Inl err
                | Inr categories \<Rightarrow> Inr (Some categories))))"

text \<open>The second \<^verbatim>\<open>try\<close> block: the local fallback.\<close>

definition storage_error :: js_error where
  "storage_error = \<lparr>is_Error = True, message = ''localStorage''\<rparr>"

definition load_local :: "env \<Rightarrow> slot \<Rightarrow> js_error + Category list" where
  "load_local e s =
     (if getItem_throws e then Inl storage_error
      else (case s of
              Absent \<Rightarrow> Inr sample_catalog
            | Unparsable \<Rightarrow> Inl storage_error
            | Snapshot localData \<Rightarrow>
                if length localData = 0 then Inr sample_catalog else Inr localData))"

text \<open>
  \<open>loadData\<close>: a throw in the first block is caught and logged, then the local
  fallback runs; a throw there is caught and \<^verbatim>\<open>[]\<close> is returned.
\<close>

definition loadData :: "env \<Rightarrow> remote_db \<Rightarrow> slot \<Rightarrow> js_error + Category list" where
  "loadData e db s =
     (case load_remote e db of
        Inr (Some categories) \<Rightarrow> Inr categories
      | _ \<Rightarrow>
          (case load_local e s of
             Inl _ \<Rightarrow> Inr []
           | Inr localData \<Rightarrow> Inr localData))"

section \<open>saveData and saveDataToSupabase\<close>

definition SAVE_DEBOUNCE_MS :: int where
  "SAVE_DEBOUNCE_MS = 100"

definition MIN_SAVE_INTERVAL_MS :: int where
  "MIN_SAVE_INTERVAL_MS = 500"

definition MAX_RETRIES :: nat where
  "MAX_RETRIES = 3"

definition BASE_DELAY :: int where
  "BASE_DELAY = 1000"

text \<open>
  A pending timer of the event loop. Both callbacks storage.ts hands to
  \<^verbatim>\<open>setTimeout\<close> are \<^verbatim>\<open>() => saveDataToSupabase(categories, k)\<close>, so a timer is
  its handle, the time it is due, and the two arguments of that call.
\<close>

record timer =
  handle :: nat
  due :: int
  t_categories :: "Category list"
  t_retryCount :: nat

text \<open>
  What the module does, in order: a successful \<^verbatim>\<open>localStorage.setItem\<close>, a
  \<^verbatim>\<open>clearTimeout\<close>, a \<^verbatim>\<open>setTimeout\<close> (handle, delay), an entry into
  \<^verbatim>\<open>saveDataToSupabase\<close> (time, payload, retry count), and a call on the remote
  client made by \<^verbatim>\<open>saveDataToSupabase\<close> itself (the reads inside
  \<^verbatim>\<open>getIsAdminUser\<close> are not recorded).
\<close>

datatype event =
    SetItem "Category list"
  | ClearTimeout nat
  | SetTimeout nat int
  | Attempt int "Category list" nat
  | Remote request

text \<open>
  \<^verbatim>\<open>saveDataToSupabase\<close> is an \<^verbatim>\<open>async\<close> function, and neither the timer callbacks
  nor App.tsx await it. A write in flight is suspended at an \<^verbatim>\<open>await\<close>: either at
  \<^verbatim>\<open>await supabase.auth.getSession()\<close>, its first statement (\<open>Lookup\<close>), or, once the
  session is known and \<^verbatim>\<open>lastSaveTime = Date.now()\<close> has been assigned, in the body that
  follows (\<open>Body userId\<close>). It carries the time at which it goes on and the two
  arguments of the call.
\<close>

datatype stage = Lookup | Body string

record pending_write =
  ready :: int
  w_categories :: "Category list"
  w_retryCount :: nat
  w_stage :: stage

text \<open>
  The module-level variables \<^verbatim>\<open>saveTimeout\<close> and \<^verbatim>\<open>lastSaveTime\<close>, the local
  storage slot, the pending timers, the remote tables, the trace of events so far, and
  the writes in flight. A timer handle (\<^verbatim>\<open>NodeJS.Timeout\<close>) is never falsy, so
  \<^verbatim>\<open>if (saveTimeout)\<close> tests for \<^verbatim>\<open>null\<close> only.
\<close>

record state =
  localStorage :: slot
  saveTimeout :: "nat option"
  lastSaveTime :: int
  timers :: "timer list"
  nextHandle :: nat
  remote :: remote_db
  trace :: "event list"
  inflight :: "pending_write list"

definition emit :: "event \<Rightarrow> state \<Rightarrow> state" where
  "emit ev st = st\<lparr>trace := trace st @ [ev]\<rparr>"

text \<open>\<^verbatim>\<open>try { localStorage.setItem(...) } catch (e) { console.error(...) }\<close>\<close>

definition setItem :: "env \<Rightarrow> Category list \<Rightarrow> state \<Rightarrow> state" where
  "setItem e categories st =
     (if setItem_throws e then st
      else emit (SetItem categories) (st\<lparr>localStorage := Snapshot categories\<rparr>))"

definition clearTimeout :: "nat \<Rightarrow> state \<Rightarrow> state" where
  "clearTimeout h st =
     emit (ClearTimeout h) (st\<lparr>timers := filter (\<lambda>tm. handle tm \<noteq> h) (timers st)\<rparr>)"

definition setTimeout :: "int \<Rightarrow> int \<Rightarrow> Category list \<Rightarrow> nat \<Rightarrow> state \<Rightarrow> nat \<times> state" where
  "setTimeout now delay categories retryCount st =
     (nextHandle st,
      emit (SetTimeout (nextHandle st) delay)
        (st\<lparr>timers := timers st @
               [\<lparr>handle = nextHandle st, due = now + delay,
                 t_categories = categories, t_retryCount = retryCount\<rparr>],
            nextHandle := Suc (nextHandle st)\<rparr>))"

text \<open>
  One awaited call on the client: it is recorded; if it fails its error is thrown,
  otherwise it takes effect on the tables. A list of calls runs up to the first throw.
\<close>

definition do_request :: "env \<Rightarrow> request \<Rightarrow> state \<Rightarrow> js_error option \<times> state" where
  "do_request e r st =
     (case fails e r of
        Some err \<Rightarrow> (Some err, emit (Remote r) st)
      | None \<Rightarrow> (None, emit (Remote r) (st\<lparr>remote := apply_request r (remote st)\<rparr>)))"

fun do_requests :: "env \<Rightarrow> request list \<Rightarrow> state \<Rightarrow> js_error option \<times> state" where
  "do_requests e [] st = (None, st)"
| "do_requests e (r # rs) st =
     (case do_request e r st of
        (Some err, st') \<Rightarrow> (Some err, st')
      | (None, st') \<Rightarrow> do_requests e rs st')"

subsection \<open>The admin branch\<close>

definition categoriesPayload :: "string \<Rightarrow> Category list \<Rightarrow> category_row list" where
  "categoriesPayload currentUserId categories =
     map (\<lambda>(index, cat).
            \<lparr>cr_id = c_id cat, cr_title = c_title cat, cr_order_index = index,
             cr_user_id = currentUserId\<rparr>)
       (enumerate 0 categories)"

definition problemsPayload :: "string \<Rightarrow> Category list \<Rightarrow> problem_row list" where
  "problemsPayload currentUserId categories =
     concat (map (\<lambda>cat.
       map (\<lambda>prob.
              \<lparr>pr_id = p_id prob, pr_category_id = c_id cat, pr_title = p_title prob,
               pr_url = p_url prob, pr_platform = p_platform prob,
               pr_difficulty = p_difficulty prob, pr_completed = p_completed prob,
               pr_note = p_note prob, pr_user_id = currentUserId\<rparr>)
         (c_problems cat)) categories)"

definition existingCategories :: "string \<Rightarrow> remote_db \<Rightarrow> string list" where
  "existingCategories currentUserId db =
     map cr_id (filter (\<lambda>r. cr_user_id r = currentUserId) (categories_tbl db))"

definition existingProblems :: "string \<Rightarrow> remote_db \<Rightarrow> string list" where
  "existingProblems currentUserId db =
     map pr_id (filter (\<lambda>r. pr_user_id r = currentUserId) (problems_tbl db))"

definition desiredCategoryIds :: "Category list \<Rightarrow> string set" where
  "desiredCategoryIds categories = set (map c_id categories)"

definition desiredProblemIds :: "Category list \<Rightarrow> string set" where
  "desiredProblemIds categories =
     set (concat (map (\<lambda>c. map p_id (c_problems c)) categories))"

definition categoriesToDelete :: "string \<Rightarrow> Category list \<Rightarrow> remote_db \<Rightarrow> string list" where
  "categoriesToDelete currentUserId categories db =
     filter (\<lambda>i. i \<notin> desiredCategoryIds categories) (existingCategories currentUserId db)"

definition problemsToDelete :: "string \<Rightarrow> Category list \<Rightarrow> remote_db \<Rightarrow> string list" where
  "problemsToDelete currentUserId categories db =
     filter (\<lambda>i. i \<notin> desiredProblemIds categories) (existingProblems currentUserId db)"

text \<open>
  The calls of the admin branch in program order. The two selects come first, so the
  existing ids are those of the tables \<open>db\<close> as they are when the branch is entered.
\<close>

definition admin_requests :: "string \<Rightarrow> Category list \<Rightarrow> remote_db \<Rightarrow> request list" where
  "admin_requests currentUserId categories db =
     [SelectCategoryIds currentUserId, SelectProblemIds currentUserId,
      UpsertCategories (categoriesPayload currentUserId categories),
      UpsertProblems (problemsPayload currentUserId categories)]
     @ (if length (problemsToDelete currentUserId categories db) > 0
        then [DeleteProblems (problemsToDelete currentUserId categories db) currentUserId]
        else [])
     @ (if length (categoriesToDelete currentUserId categories db) > 0
        then [DeleteCategories (categoriesToDelete currentUserId categories db) currentUserId]
        else [])"

subsection \<open>The sub-user branch\<close>

definition progressPayload :: "string \<Rightarrow> Category list \<Rightarrow> progress_row list" where
  "progressPayload userId categories =
     concat (map (\<lambda>cat.
       map (\<lambda>prob.
              \<lparr>up_user_id = userId, up_problem_id = p_id prob,
               up_completed = p_completed prob, up_note = p_note prob\<rparr>)
         (c_problems cat)) categories)"

subsection \<open>saveDataToSupabase\<close>

text \<open>
  This section gives \<^verbatim>\<open>saveDataToSupabase\<close> and \<^verbatim>\<open>saveData\<close> as one call run to its
  end with nothing else running in between, at one reading \<open>now\<close> of the clock and in
  one environment: what a caller sees who awaits the call while no other call, timer or
  write is under way. The event loop further down runs the same statements in steps.

  The \<^verbatim>\<open>try\<close> block: the error thrown, if any, and the state reached.
\<close>

definition save_try :: "env \<Rightarrow> int \<Rightarrow> Category list \<Rightarrow> state \<Rightarrow> js_error option \<times> state" where
  "save_try e now categories st =
     (case do_request e GetSession st of
        (Some err, st1) \<Rightarrow> (Some err, st1)
      | (None, st1) \<Rightarrow>
          (case session e of
             None \<Rightarrow> (None, st1)
           | Some userId \<Rightarrow>
               (let st2 = st1\<lparr>lastSaveTime := now\<rparr>
                in if getIsAdminUser e (remote st2)
                   then do_requests e (admin_requests userId categories (remote st2)) st2
                   else do_requests e [UpsertProgress (progressPayload userId categories)] st2)))"

definition retryable :: "js_error \<Rightarrow> bool" where
  "retryable err =
     (is_Error err \<and>
      (message_includes (message err) ''ERR_INSUFFICIENT_RESOURCES'' \<or>
       message_includes (message err) ''rate limit''))"

text \<open>
  The \<^verbatim>\<open>catch\<close> block either schedules the retry (its handle is not kept) or sets
  \<^verbatim>\<open>lastSaveTime = 0\<close>; it never rethrows, so the function returns a state.
\<close>

definition saveDataToSupabase :: "env \<Rightarrow> int \<Rightarrow> Category list \<Rightarrow> nat \<Rightarrow> state \<Rightarrow> state" where
  "saveDataToSupabase e now categories retryCount st =
     (case save_try e now categories (emit (Attempt now categories retryCount) st) of
        (None, st') \<Rightarrow> st'
      | (Some err, st') \<Rightarrow>
          if retryCount < MAX_RETRIES \<and> retryable err
          then snd (setTimeout now (BASE_DELAY * 2 ^ retryCount) categories (retryCount + 1) st')
          else st'\<lparr>lastSaveTime := 0\<rparr>)"

subsection \<open>saveData\<close>

definition saveData :: "env \<Rightarrow> int \<Rightarrow> Category list \<Rightarrow> bool \<Rightarrow> state \<Rightarrow> state" where
  "saveData e now categories forceImmediate st =
     (let st1 = setItem e categories st;
          st2 = (case saveTimeout st1 of Some h \<Rightarrow> clearTimeout h st1 | None \<Rightarrow> st1)
      in if forceImmediate then saveDataToSupabase e now categories 0 st2
         else if now - lastSaveTime st2 < MIN_SAVE_INTERVAL_MS
         then (case setTimeout now SAVE_DEBOUNCE_MS categories 0 st2 of
                 (h, st3) \<Rightarrow> st3\<lparr>saveTimeout := Some h\<rparr>)
         else saveDataToSupabase e now categories 0 st2)"

section \<open>Reading a trace\<close>

text \<open>The events a step added to the trace.\<close>

definition since :: "state \<Rightarrow> state \<Rightarrow> event list" where
  "since st st' = drop (length (trace st)) (trace st')"

fun is_attempt :: "event \<Rightarrow> bool" where
  "is_attempt (Attempt _ _ _) = True"
| "is_attempt _ = False"

fun is_fetch :: "request \<Rightarrow> bool" where
  "is_fetch (SelectAdmin _) = True"
| "is_fetch (SelectCategories _) = True"
| "is_fetch (SelectProblems _) = True"
| "is_fetch (SelectProgress _) = True"
| "is_fetch (SelectCategoryIds _) = True"
| "is_fetch (SelectProblemIds _) = True"
| "is_fetch _ = False"

fun is_delete :: "event \<Rightarrow> bool" where
  "is_delete (Remote (DeleteProblems _ _)) = True"
| "is_delete (Remote (DeleteCategories _ _)) = True"
| "is_delete _ = False"

fun is_upsert :: "event \<Rightarrow> bool" where
  "is_upsert (Remote (UpsertCategories _)) = True"
| "is_upsert (Remote (UpsertProblems _)) = True"
| "is_upsert (Remote (UpsertProgress _)) = True"
| "is_upsert _ = False"

text \<open>The calls that write to the remote tables, and those among a list of events.\<close>

fun is_write :: "request \<Rightarrow> bool" where
  "is_write (UpsertCategories _) = True"
| "is_write (UpsertProblems _) = True"
| "is_write (DeleteProblems _ _) = True"
| "is_write (DeleteCategories _ _) = True"
| "is_write (UpsertProgress _) = True"
| "is_write _ = False"

fun writes :: "event list \<Rightarrow> request list" where
  "writes [] = []"
| "writes (Remote r # evs) = (if is_write r then r # writes evs else writes evs)"
| "writes (_ # evs) = writes evs"

text \<open>
  The events of the first two statements of \<^verbatim>\<open>saveData\<close>: the write of the local
  slot (unless it throws) and the cancelling of the timer \<^verbatim>\<open>saveTimeout\<close> holds.
\<close>

definition save_prefix :: "env \<Rightarrow> Category list \<Rightarrow> state \<Rightarrow> event list" where
  "save_prefix e categories st =
     (if setItem_throws e then [] else [SetItem categories]) @
     (case saveTimeout st of Some h \<Rightarrow> [ClearTimeout h] | None \<Rightarrow> [])"

text \<open>The state after the first two statements of \<^verbatim>\<open>saveData\<close>.\<close>

definition cleared :: "env \<Rightarrow> Category list \<Rightarrow> state \<Rightarrow> state" where
  "cleared e categories st =
     (let st1 = setItem e categories st
      in case saveTimeout st1 of Some h \<Rightarrow> clearTimeout h st1 | None \<Rightarrow> st1)"

subsection \<open>The branches of the remote write in closed form\<close>

text \<open>The tree a sub-user is shown: the shared catalog with the user's own overlay.\<close>

definition subuser_tree :: "string \<Rightarrow> remote_db \<Rightarrow> Category list" where
  "subuser_tree u db =
     map (\<lambda>cat.
           \<lparr>c_id = cr_id cat, c_title = cr_title cat,
            c_problems =
              map (overlay_problem
                     (progressByProblem (filter (\<lambda>r. up_user_id r = u) (progress_tbl db))))
                (filter (\<lambda>prob. pr_category_id prob = cr_id cat) (problems_tbl db))\<rparr>)
       (sort_key cr_order_index (categories_tbl db))"

text \<open>The delete calls of the admin branch, in program order.\<close>

definition delete_requests :: "string \<Rightarrow> Category list \<Rightarrow> remote_db \<Rightarrow> request list" where
  "delete_requests currentUserId categories db =
     (if length (problemsToDelete currentUserId categories db) > 0
      then [DeleteProblems (problemsToDelete currentUserId categories db) currentUserId]
      else [])
     @ (if length (categoriesToDelete currentUserId categories db) > 0
        then [DeleteCategories (categoriesToDelete currentUserId categories db) currentUserId]
        else [])"

text \<open>The tables an admin save without failures leaves.\<close>

definition synced :: "string \<Rightarrow> Category list \<Rightarrow> remote_db \<Rightarrow> remote_db" where
  "synced u cs db =
     db\<lparr>categories_tbl :=
          filter (\<lambda>r. \<not> (cr_id r \<in> set (categoriesToDelete u cs db) \<and> cr_user_id r = u))
            (upsert cr_id (categoriesPayload u cs) (categories_tbl db)),
        problems_tbl :=
          filter (\<lambda>r. \<not> (pr_id r \<in> set (problemsToDelete u cs db) \<and> pr_user_id r = u))
            (upsert pr_id (problemsPayload u cs) (problems_tbl db))\<rparr>"

subsection \<open>Properties of states and runs\<close>

text \<open>
  A step from \<open>st\<close> to \<open>st'\<close> wrote nothing but the progress payload of user \<open>u\<close>:
  the only writing call it made, if any, is that upsert; the catalog tables are as
  before; so are the progress rows of every other user.
\<close>

definition only_own_progress :: "string \<Rightarrow> Category list \<Rightarrow> state \<Rightarrow> state \<Rightarrow> bool" where
  "only_own_progress u categories st st' =
     (set (writes (since st st')) \<subseteq> {UpsertProgress (progressPayload u categories)} \<and>
      categories_tbl (remote st') = categories_tbl (remote st) \<and>
      problems_tbl (remote st') = problems_tbl (remote st) \<and>
      filter (\<lambda>r. up_user_id r \<noteq> u) (progress_tbl (remote st')) =
        filter (\<lambda>r. up_user_id r \<noteq> u) (progress_tbl (remote st)))"

section \<open>The event loop\<close>

text \<open>
  Calls of \<^verbatim>\<open>saveData\<close>, timer callbacks and writes in flight take turns. A write
  touches the module variables at three moments, each a step of its own here: when
  \<^verbatim>\<open>saveDataToSupabase\<close> is entered, when the session lookup resolves, and when
  the body ends. The remote calls of the body are made together in that last step.
\<close>

subsection \<open>The steps of a write\<close>

text \<open>
  The \<^verbatim>\<open>catch\<close> block, run with the error \<open>err\<close> at the time \<open>now\<close> of the throw.
\<close>

definition catch_block :: "int \<Rightarrow> Category list \<Rightarrow> nat \<Rightarrow> js_error \<Rightarrow> state \<Rightarrow> state" where
  "catch_block now categories retryCount err st =
     (if retryCount < MAX_RETRIES \<and> retryable err
      then snd (setTimeout now (BASE_DELAY * 2 ^ retryCount) categories (retryCount + 1) st)
      else st\<lparr>lastSaveTime := 0\<rparr>)"

text \<open>
  \<^verbatim>\<open>saveDataToSupabase(categories, retryCount)\<close> is entered at \<open>now\<close> and suspends at
  \<^verbatim>\<open>await supabase.auth.getSession()\<close>, which resolves \<open>latency\<close> ms later.
\<close>

definition enter :: "int \<Rightarrow> nat \<Rightarrow> Category list \<Rightarrow> nat \<Rightarrow> state \<Rightarrow> state" where
  "enter now latency categories retryCount st =
     (emit (Attempt now categories retryCount) st)
       \<lparr>inflight := inflight st @
          [\<lparr>ready = now + int latency, w_categories = categories,
            w_retryCount = retryCount, w_stage = Lookup\<rparr>]\<rparr>"

text \<open>
  The session lookup resolves at \<open>now\<close>: a throw runs the \<^verbatim>\<open>catch\<close> block; without
  a session the function returns; with one, \<^verbatim>\<open>lastSaveTime = Date.now()\<close> is assigned
  and the write suspends again, at \<^verbatim>\<open>await getIsAdminUser()\<close>, for \<open>latency\<close> ms.
\<close>

definition session_resolved ::
  "env \<Rightarrow> int \<Rightarrow> nat \<Rightarrow> Category list \<Rightarrow> nat \<Rightarrow> state \<Rightarrow> state" where
  "session_resolved e now latency categories retryCount st =
     (case do_request e GetSession st of
        (Some err, st1) \<Rightarrow> catch_block now categories retryCount err st1
      | (None, st1) \<Rightarrow>
          (case session e of
             None \<Rightarrow> st1
           | Some userId \<Rightarrow>
               st1\<lparr>lastSaveTime := now,
                   inflight := inflight st1 @
                     [\<lparr>ready = now + int latency, w_categories = categories,
                       w_retryCount = retryCount, w_stage = Body userId\<rparr>]\<rparr>))"

text \<open>
  The body ends at \<open>now\<close>: the admin test and the remote calls of the branch it
  selects, up to the first throw, then the \<^verbatim>\<open>catch\<close> block if one of them threw.
\<close>

definition body_done ::
  "env \<Rightarrow> int \<Rightarrow> string \<Rightarrow> Category list \<Rightarrow> nat \<Rightarrow> state \<Rightarrow> state" where
  "body_done e now userId categories retryCount st =
     (case (if getIsAdminUser e (remote st)
            then do_requests e (admin_requests userId categories (remote st)) st
            else do_requests e [UpsertProgress (progressPayload userId categories)] st) of
        (None, st') \<Rightarrow> st'
      | (Some err, st') \<Rightarrow> catch_block now categories retryCount err st')"

text \<open>The remote calls the body makes when none of them throws, in program order.\<close>

definition body_requests :: "env \<Rightarrow> string \<Rightarrow> Category list \<Rightarrow> remote_db \<Rightarrow> request list" where
  "body_requests e userId categories db =
     (if getIsAdminUser e db then admin_requests userId categories db
      else [UpsertProgress (progressPayload userId categories)])"

text \<open>
  \<^verbatim>\<open>saveData\<close> up to its first \<^verbatim>\<open>await\<close>: the local write, the cancelling of the
  timer \<^verbatim>\<open>saveTimeout\<close> holds, and then either the entry into
  \<^verbatim>\<open>saveDataToSupabase\<close> or the setting of the debounce timer.
\<close>

definition saveData_start ::
  "env \<Rightarrow> int \<Rightarrow> nat \<Rightarrow> Category list \<Rightarrow> bool \<Rightarrow> state \<Rightarrow> state" where
  "saveData_start e now latency categories forceImmediate st =
     (let st1 = setItem e categories st;
          st2 = (case saveTimeout st1 of Some h \<Rightarrow> clearTimeout h st1 | None \<Rightarrow> st1)
      in if forceImmediate then enter now latency categories 0 st2
         else if now - lastSaveTime st2 < MIN_SAVE_INTERVAL_MS
         then (case setTimeout now SAVE_DEBOUNCE_MS categories 0 st2 of
                 (h, st3) \<Rightarrow> st3\<lparr>saveTimeout := Some h\<rparr>)
         else enter now latency categories 0 st2)"

subsection \<open>Scheduling\<close>

text \<open>
  What the event loop has pending: a timer to fire at its due time, or a write in
  flight to go on when the call it awaits resolves.
\<close>

datatype pending = Resuming pending_write | Firing timer

fun moment :: "pending \<Rightarrow> int" where
  "moment (Resuming pw) = ready pw"
| "moment (Firing tm) = due tm"

definition pendings :: "state \<Rightarrow> pending list" where
  "pendings st = map Resuming (inflight st) @ map Firing (timers st)"

text \<open>The pending item that comes first; among equals, the first of the list.\<close>

fun earliest :: "pending list \<Rightarrow> pending option" where
  "earliest [] = None"
| "earliest (p # ps) =
     (case earliest ps of
        None \<Rightarrow> Some p
      | Some p' \<Rightarrow> if moment p \<le> moment p' then Some p else Some p')"

definition next_due :: "int \<Rightarrow> state \<Rightarrow> pending option" where
  "next_due t st = earliest (filter (\<lambda>p. moment p \<le> t) (pendings st))"

text \<open>
  The world is the environment at each moment, \<open>w\<close>, and the time an awaited call
  begun at a given moment takes to resolve, \<open>lat\<close>. A timer that comes due is removed
  and its callback enters \<^verbatim>\<open>saveDataToSupabase\<close>; a write in flight goes on in the
  environment of the moment it resolves.
\<close>

definition fire :: "(int \<Rightarrow> nat) \<Rightarrow> timer \<Rightarrow> state \<Rightarrow> state" where
  "fire lat tm st =
     enter (due tm) (lat (due tm)) (t_categories tm) (t_retryCount tm)
       (st\<lparr>timers := filter (\<lambda>x. handle x \<noteq> handle tm) (timers st)\<rparr>)"

definition resume :: "(int \<Rightarrow> env) \<Rightarrow> (int \<Rightarrow> nat) \<Rightarrow> pending_write \<Rightarrow> state \<Rightarrow> state" where
  "resume w lat pw st =
     (let st' = st\<lparr>inflight := remove1 pw (inflight st)\<rparr>;
          now = ready pw
      in case w_stage pw of
           Lookup \<Rightarrow>
             session_resolved (w now) now (lat now) (w_categories pw) (w_retryCount pw) st'
         | Body userId \<Rightarrow>
             body_done (w now) now userId (w_categories pw) (w_retryCount pw) st')"

fun step :: "(int \<Rightarrow> env) \<Rightarrow> (int \<Rightarrow> nat) \<Rightarrow> pending \<Rightarrow> state \<Rightarrow> state" where
  "step w lat (Resuming pw) st = resume w lat pw st"
| "step w lat (Firing tm) st = fire lat tm st"

text \<open>
  \<open>advance w lat t\<close> lets the clock reach \<open>t\<close>: everything pending that is due by
  then takes its step, in order of time.
\<close>

function advance :: "(int \<Rightarrow> env) \<Rightarrow> (int \<Rightarrow> nat) \<Rightarrow> int \<Rightarrow> state \<Rightarrow> state" where
  "advance w lat t st =
     (case next_due t st of
        None \<Rightarrow> st
      | Some p \<Rightarrow> advance w lat t (step w lat p st))"
  by pat_completeness auto

text \<open>
  A call of \<^verbatim>\<open>saveData\<close> at time \<open>t\<close>, after everything due by \<open>t\<close> has taken its
  step. The call is not awaited: it returns at its first \<^verbatim>\<open>await\<close>.
\<close>

definition call ::
  "(int \<Rightarrow> env) \<Rightarrow> (int \<Rightarrow> nat) \<Rightarrow> int \<Rightarrow> Category list \<Rightarrow> bool \<Rightarrow> state \<Rightarrow> state" where
  "call w lat t categories forceImmediate st =
     saveData_start (w t) t (lat t) categories forceImmediate (advance w lat t st)"

text \<open>A sequence of calls \<^verbatim>\<open>saveData(categories, forceImmediate)\<close>, each with its time.\<close>

definition run ::
  "(int \<Rightarrow> env) \<Rightarrow> (int \<Rightarrow> nat) \<Rightarrow> (int \<times> Category list \<times> bool) list \<Rightarrow> state \<Rightarrow> state" where
  "run w lat calls st =
     fold (\<lambda>(t, categories, forceImmediate). call w lat t categories forceImmediate) calls st"

subsection \<open>Properties of the scheduler\<close>

text \<open>
  The pending debounced writes and the pending retries: \<^verbatim>\<open>saveData\<close> sets its timer
  with retry count 0, the \<^verbatim>\<open>catch\<close> block sets its timer with a larger one.
\<close>

definition debounced :: "state \<Rightarrow> timer list" where
  "debounced st = filter (\<lambda>tm. t_retryCount tm = 0) (timers st)"

definition retries :: "state \<Rightarrow> timer list" where
  "retries st = filter (\<lambda>tm. t_retryCount tm \<noteq> 0) (timers st)"

text \<open>
  The payloads of the writes entered with retry count 0 among a list of events: the
  writes a call of \<^verbatim>\<open>saveData\<close> enters itself or through its debounce timer.
\<close>

fun entered_first :: "event list \<Rightarrow> Category list list" where
  "entered_first [] = []"
| "entered_first (Attempt t cs k # evs) =
     (if k = 0 then cs # entered_first evs else entered_first evs)"
| "entered_first (_ # evs) = entered_first evs"

text \<open>
  The timers are in order: handles are fresh and distinct, the handle in
  \<^verbatim>\<open>saveTimeout\<close> has been handed out, and a pending timer is a debounced write
  exactly when \<^verbatim>\<open>saveTimeout\<close> holds its handle.
\<close>

definition timers_ok :: "state \<Rightarrow> bool" where
  "timers_ok st =
     (list_all (\<lambda>tm. handle tm < nextHandle st) (timers st) \<and>
      distinct (map handle (timers st)) \<and>
      (case saveTimeout st of None \<Rightarrow> True | Some h \<Rightarrow> h < nextHandle st) \<and>
      list_all (\<lambda>tm. (t_retryCount tm = 0) = (saveTimeout st = Some (handle tm))) (timers st))"

text \<open>
  A burst of calls: the times do not decrease, and each call comes less than
  \<^verbatim>\<open>SAVE_DEBOUNCE_MS\<close> after the one before, that is, before the timer of that one fires.
\<close>

fun rapid :: "(int \<times> Category list \<times> bool) list \<Rightarrow> bool" where
  "rapid [] = True"
| "rapid [c] = True"
| "rapid (c # c' # calls) =
     (fst c \<le> fst c' \<and> fst c' - fst c < SAVE_DEBOUNCE_MS \<and> rapid (c' # calls))"

text \<open>
  The state of the scheduler in a burst, after a call at time \<open>t\<close> with payload
  \<open>cs\<close>: that call's timer is the only thing pending, and since the burst began no
  write has been entered, no remote call made, and \<^verbatim>\<open>lastSaveTime\<close> and the remote
  tables are as they were.
\<close>

definition waiting :: "state \<Rightarrow> int \<Rightarrow> Category list \<Rightarrow> state \<Rightarrow> bool" where
  "waiting st t cs s =
     (\<exists>h evs. timers s = [\<lparr>handle = h, due = t + SAVE_DEBOUNCE_MS,
                            t_categories = cs, t_retryCount = 0\<rparr>] \<and>
        inflight s = [] \<and>
        saveTimeout s = Some h \<and> lastSaveTime s = lastSaveTime st \<and> remote s = remote st \<and>
        trace s = trace st @ evs \<and> filter is_attempt evs = [] \<and> writes evs = [])"

text \<open>
  The weight of what is pending. A timer becomes a write at its session lookup, that
  a write in its body, and that at most a timer with a larger retry count, set only
  below \<^verbatim>\<open>MAX_RETRIES\<close>: every step of the event loop lowers the weight.
\<close>

definition timer_weight :: "timer \<Rightarrow> nat" where
  "timer_weight tm = 3 * (Suc MAX_RETRIES - t_retryCount tm) + 3"

definition write_weight :: "pending_write \<Rightarrow> nat" where
  "write_weight pw =
     3 * (Suc MAX_RETRIES - w_retryCount pw) + (case w_stage pw of Lookup \<Rightarrow> 2 | Body _ \<Rightarrow> 1)"

definition weight :: "state \<Rightarrow> nat" where
  "weight st = sum_list (map timer_weight (timers st)) + sum_list (map write_weight (inflight st))"
section \<open>Concrete scenarios\<close>

text \<open>A signed-in user whose every fetch fails, and a remote store with no rows.\<close>

definition offline_env :: env where
  "offline_env =
     \<lparr>session = Some ''u1'',
      fails = (\<lambda>r. if is_fetch r then Some \<lparr>is_Error = True, message = ''Failed to fetch''\<rparr>
                   else None),
      getItem_throws = False, setItem_throws = False\<rparr>"

definition empty_db :: remote_db where
  "empty_db = \<lparr>categories_tbl = [], problems_tbl = [], progress_tbl = [], app_admins = []\<rparr>"

text \<open>A signed-in user who is no admin, with every call succeeding.\<close>

definition subuser_env :: env where
  "subuser_env = \<lparr>session = Some ''u1'', fails = (\<lambda>r. None),
                  getItem_throws = False, setItem_throws = False\<rparr>"

text \<open>A tree of one category with one completed problem, and the catalog it comes from.\<close>

definition arrays_tree :: "Category list" where
  "arrays_tree =
     [\<lparr>c_id = ''c1'', c_title = ''Arrays'',
       c_problems = [\<lparr>p_id = ''p1'', p_title = ''Two Sum'', p_url = ''u'',
                      p_platform = LeetCode, p_difficulty = Easy,
                      p_completed = True, p_note = None\<rparr>]\<rparr>]"

definition shared_db :: remote_db where
  "shared_db =
     \<lparr>categories_tbl = [\<lparr>cr_id = ''c1'', cr_title = ''Arrays'', cr_order_index = 0,
                         cr_user_id = ''admin''\<rparr>],
      problems_tbl = [\<lparr>pr_id = ''p1'', pr_category_id = ''c1'', pr_title = ''Two Sum'',
                       pr_url = ''u'', pr_platform = LeetCode, pr_difficulty = Easy,
                       pr_completed = False, pr_note = None, pr_user_id = ''admin''\<rparr>],
      progress_tbl = [], app_admins = [''admin'']\<rparr>"

text \<open>
  The module freshly loaded: no timer, no write in flight, \<^verbatim>\<open>lastSaveTime = 0\<close>,
  nothing stored locally.
\<close>

definition idle :: "remote_db \<Rightarrow> state" where
  "idle db = \<lparr>localStorage = Absent, saveTimeout = None, lastSaveTime = 0, timers = [],
              nextHandle = 1, remote = db, trace = [], inflight = []\<rparr>"

text \<open>
  A signed-in user whose session lookup throws an \<^verbatim>\<open>Error\<close> for lack of resources.
\<close>

definition lookup_failing_env :: env where
  "lookup_failing_env =
     \<lparr>session = Some ''u1'',
      fails = (\<lambda>r. if r = GetSession
                   then Some \<lparr>is_Error = True, message = ''net::ERR_INSUFFICIENT_RESOURCES''\<rparr>
                   else None),
      getItem_throws = False, setItem_throws = False\<rparr>"

text \<open>
  A signed-in user whose progress upsert is refused: the client returns
  \<^verbatim>\<open>{ error: { message: 'Request rate limit reached' } }\<close>, an object that is no
  instance of \<^verbatim>\<open>Error\<close>, and \<^verbatim>\<open>saveDataToSupabase\<close> throws it.
\<close>

definition rate_limited_env :: env where
  "rate_limited_env =
     \<lparr>session = Some ''u1'',
      fails = (\<lambda>r. case r of
                     UpsertProgress rows \<Rightarrow>
                       Some \<lparr>is_Error = False, message = ''Request rate limit reached''\<rparr>
                   | _ \<Rightarrow> None),
      getItem_throws = False, setItem_throws = False\<rparr>"

text \<open>
  A world in which the session lookup throws between 1100 and 1200 ms and every call
  succeeds otherwise, for a signed-in user who is no admin.
\<close>

definition outage_world :: "int \<Rightarrow> env" where
  "outage_world t = (if 1100 \<le> t \<and> t < 1200 then lookup_failing_env else subuser_env)"

text \<open>
  The shared catalog with two overlay rows on its problem: one of user \<open>u1\<close>, one of
  another user.
\<close>

definition overlay_db :: remote_db where
  "overlay_db =
     shared_db\<lparr>progress_tbl :=
       [\<lparr>up_user_id = ''u2'', up_problem_id = ''p1'', up_completed = False, up_note = Some ''later''\<rparr>,
        \<lparr>up_user_id = ''u1'', up_problem_id = ''p1'', up_completed = True, up_note = Some ''done''\<rparr>]\<rparr>"

text \<open>The admin signed in, with every call succeeding.\<close>

definition admin_env :: env where
  "admin_env = \<lparr>session = Some ''admin'', fails = (\<lambda>r. None),
                getItem_throws = False, setItem_throws = False\<rparr>"

text \<open>The admin's catalog with a second category and a second problem.\<close>

definition two_db :: remote_db where
  "two_db =
     \<lparr>categories_tbl =
        [\<lparr>cr_id = ''c1'', cr_title = ''Arrays'', cr_order_index = 0, cr_user_id = ''admin''\<rparr>,
         \<lparr>cr_id = ''c2'', cr_title = ''Graphs'', cr_order_index = 1, cr_user_id = ''admin''\<rparr>],
      problems_tbl =
        [\<lparr>pr_id = ''p1'', pr_category_id = ''c1'', pr_title = ''Two Sum'', pr_url = ''u'',
          pr_platform = LeetCode, pr_difficulty = Easy, pr_completed = False,
          pr_note = None, pr_user_id = ''admin''\<rparr>,
         \<lparr>pr_id = ''p2'', pr_category_id = ''c2'', pr_title = ''Islands'', pr_url = ''v'',
          pr_platform = GFG, pr_difficulty = Medium, pr_completed = False,
          pr_note = None, pr_user_id = ''admin''\<rparr>],
      progress_tbl = [], app_admins = [''admin'']\<rparr>"

text \<open>The module just after a remote write at 1000 ms, with no timer pending.\<close>

definition just_saved :: state where
  "just_saved = (idle shared_db)\<lparr>lastSaveTime := 1000\<rparr>"

text \<open>The tree of \<open>arrays_tree\<close> with its problem not completed.\<close>

definition arrays_tree_open :: "Category list" where
  "arrays_tree_open =
     [\<lparr>c_id = ''c1'', c_title = ''Arrays'',
       c_problems = [\<lparr>p_id = ''p1'', p_title = ''Two Sum'', p_url = ''u'',
                      p_platform = LeetCode, p_difficulty = Easy,
                      p_completed = False, p_note = None\<rparr>]\<rparr>]"

text \<open>Nobody signed in, with every call succeeding.\<close>

definition signed_out_env :: env where
  "signed_out_env = \<lparr>session = None, fails = (\<lambda>r. None),
                     getItem_throws = False, setItem_throws = False\<rparr>"

text \<open>
  A world in which the progress upsert made at 1100 ms is refused and every call
  succeeds otherwise, for a signed-in user who is no admin.
\<close>

definition refusal_world :: "int \<Rightarrow> env" where
  "refusal_world t = (if t = 1100 then rate_limited_env else subuser_env)"
section \<open>Basic facts\<close>

lemma timers_emit [simp]: "timers (emit ev st) = timers st"
  by (simp add: emit_def)

lemma timers_do_request [simp]: "timers (snd (do_request e r st)) = timers st"
  by (simp add: do_request_def split: option.splits)

lemma timers_do_requests [simp]: "timers (snd (do_requests e rs st)) = timers st"
proof (induction rs arbitrary: st)
  case Nil
  show ?case by simp
next
  case (Cons r rs)
  show ?case
  proof (cases "do_request e r st")
    case (Pair res st')
    have "timers st' = timers st" using timers_do_request [of e r st] Pair by simp
    then show ?thesis using Pair Cons.IH [of st'] by (cases res) simp_all
  qed
qed

lemma timers_save_try [simp]: "timers (snd (save_try e now cs st)) = timers st"
proof (cases "do_request e GetSession st")
  case (Pair res st1)
  have t1: "timers st1 = timers st" using timers_do_request [of e GetSession st] Pair by simp
  show ?thesis
  proof (cases res)
    case (Some err)
    then show ?thesis using Pair t1 by (simp add: save_try_def)
  next
    case None
    then show ?thesis using Pair t1
      by (simp add: save_try_def Let_def del: do_requests.simps split: option.splits)
  qed
qed

subsection \<open>Loading\<close>

lemma load_remote_fetch_fails:
  assumes "\<forall>r. is_fetch r \<longrightarrow> fails e r \<noteq> None"
  shows "\<forall>cs. load_remote e db \<noteq> Inr (Some cs)"
proof -
  have a: "\<And>f. fails e (SelectCategories f) \<noteq> None" using assms by simp
  have "\<And>u cs. load_admin e u db \<noteq> Inr cs"
  proof -
    fix u cs
    obtain err where "fails e (SelectCategories (Some u)) = Some err"
      using a [of "Some u"] by blast
    then show "load_admin e u db \<noteq> Inr cs" by (simp add: load_admin_def)
  qed
  moreover have "\<And>u cs. load_subuser e u db \<noteq> Inr cs"
    using a [of None] by (auto simp: load_subuser_def split: option.splits)
  ultimately show ?thesis
    by (simp add: load_remote_def split: option.splits sum.splits)
qed

lemma load_remote_no_session:
  "session e = None \<Longrightarrow> \<forall>cs. load_remote e db \<noteq> Inr (Some cs)"
  by (simp add: load_remote_def split: option.splits)

subsection \<open>Traces and frames of the save functions\<close>

lemma since_self [simp]: "since st st = []"
  by (simp add: since_def)

lemma since_append: "trace st' = trace st @ evs \<Longrightarrow> since st st' = evs"
  by (simp add: since_def)

lemma do_request_unfold:
  "do_request e r st =
     (fails e r,
      st\<lparr>remote := (if fails e r = None then apply_request r (remote st) else remote st),
         trace := trace st @ [Remote r]\<rparr>)"
  by (cases "fails e r") (simp_all add: do_request_def emit_def)

lemma do_requests_shape:
  "\<exists>k db. do_requests e rs st =
      (fst (do_requests e rs st), st\<lparr>remote := db, trace := trace st @ map Remote (take k rs)\<rparr>)"
proof (induction rs arbitrary: st)
  case Nil
  have "do_requests e [] st = (None, st\<lparr>remote := remote st, trace := trace st @ map Remote (take 0 [])\<rparr>)"
    by simp
  then show ?case by (metis fst_conv)
next
  case (Cons r rs)
  let ?st1 = "st\<lparr>remote := (if fails e r = None then apply_request r (remote st) else remote st),
         trace := trace st @ [Remote r]\<rparr>"
  show ?case
  proof (cases "fails e r")
    case (Some err)
    then have "do_requests e (r # rs) st =
       (Some err, st\<lparr>remote := remote st, trace := trace st @ map Remote (take 1 (r # rs))\<rparr>)"
      by (simp add: do_request_unfold)
    then show ?thesis by (metis fst_conv)
  next
    case None
    then have eq: "do_requests e (r # rs) st = do_requests e rs ?st1"
      by (simp add: do_request_unfold)
    from Cons.IH [of ?st1] obtain k db where
      "do_requests e rs ?st1 =
        (fst (do_requests e rs ?st1), ?st1\<lparr>remote := db, trace := trace ?st1 @ map Remote (take k rs)\<rparr>)"
      by blast
    then have "do_requests e (r # rs) st =
        (fst (do_requests e (r # rs) st),
         st\<lparr>remote := db, trace := trace st @ map Remote (take (Suc k) (r # rs))\<rparr>)"
      using eq by simp
    then show ?thesis by blast
  qed
qed

lemma do_requests_ok:
  "\<forall>r \<in> set rs. fails e r = None \<Longrightarrow>
   do_requests e rs st =
     (None, st\<lparr>remote := fold apply_request rs (remote st), trace := trace st @ map Remote rs\<rparr>)"
proof (induction rs arbitrary: st)
  case Nil
  show ?case by simp
next
  case (Cons r rs)
  then show ?case by (simp add: do_request_unfold)
qed

text \<open>What saveDataToSupabase leaves alone.\<close>

lemma save_try_shape:
  "\<exists>evs db lst. save_try e now cs st =
     (fst (save_try e now cs st),
      st\<lparr>lastSaveTime := lst, remote := db, trace := trace st @ Remote GetSession # evs\<rparr>)"
proof (cases "fails e GetSession")
  case (Some err)
  then have "save_try e now cs st =
     (Some err, st\<lparr>lastSaveTime := lastSaveTime st, remote := remote st, trace := trace st @ Remote GetSession # []\<rparr>)"
    by (simp add: save_try_def do_request_unfold)
  then show ?thesis by (metis fst_conv)
next
  case None
  let ?st1 = "st\<lparr>remote := remote st, trace := trace st @ [Remote GetSession]\<rparr>"
  show ?thesis
  proof (cases "session e")
    case no: None
    have "save_try e now cs st =
     (None, st\<lparr>lastSaveTime := lastSaveTime st, remote := remote st, trace := trace st @ Remote GetSession # []\<rparr>)"
      using None no by (simp add: save_try_def do_request_unfold)
    then show ?thesis by (metis fst_conv)
  next
    case (Some u)
    let ?st2 = "?st1\<lparr>lastSaveTime := now\<rparr>"
    let ?rs = "if getIsAdminUser e (remote st) then admin_requests u cs (remote st)
               else [UpsertProgress (progressPayload u cs)]"
    have eq: "save_try e now cs st = do_requests e ?rs ?st2"
      using None Some by (simp add: save_try_def do_request_unfold Let_def del: do_requests.simps)
    from do_requests_shape [of e ?rs ?st2] obtain k db where
      "do_requests e ?rs ?st2 =
        (fst (do_requests e ?rs ?st2), ?st2\<lparr>remote := db, trace := trace ?st2 @ map Remote (take k ?rs)\<rparr>)"
      by blast
    then have "save_try e now cs st =
      (fst (save_try e now cs st),
       st\<lparr>lastSaveTime := now, remote := db, trace := trace st @ Remote GetSession # map Remote (take k ?rs)\<rparr>)"
      using eq by simp
    then show ?thesis by blast
  qed
qed

lemma saveDataToSupabase_shape:
  "\<exists>evs db lst tms nh. saveDataToSupabase e now cs k st =
      st\<lparr>lastSaveTime := lst, timers := tms, nextHandle := nh, remote := db,
         trace := trace st @ Attempt now cs k # Remote GetSession # evs\<rparr>"
proof -
  let ?st0 = "emit (Attempt now cs k) st"
  from save_try_shape [of e now cs ?st0] obtain evs db lst where
    st: "save_try e now cs ?st0 =
      (fst (save_try e now cs ?st0),
       ?st0\<lparr>lastSaveTime := lst, remote := db, trace := trace ?st0 @ Remote GetSession # evs\<rparr>)"
    by blast
  let ?st' = "?st0\<lparr>lastSaveTime := lst, remote := db, trace := trace ?st0 @ Remote GetSession # evs\<rparr>"
  show ?thesis
  proof (cases "fst (save_try e now cs ?st0)")
    case None
    then have "saveDataToSupabase e now cs k st = ?st'"
      using st by (simp add: saveDataToSupabase_def)
    then have "saveDataToSupabase e now cs k st =
       st\<lparr>lastSaveTime := lst, timers := timers st, nextHandle := nextHandle st, remote := db,
         trace := trace st @ Attempt now cs k # Remote GetSession # evs\<rparr>"
      by (simp add: emit_def)
    then show ?thesis by blast
  next
    case (Some err)
    show ?thesis
    proof (cases "k < MAX_RETRIES \<and> retryable err")
      case True
      then have "saveDataToSupabase e now cs k st =
         snd (setTimeout now (BASE_DELAY * 2 ^ k) cs (k + 1) ?st')"
        using st Some by (simp add: saveDataToSupabase_def)
      then have "saveDataToSupabase e now cs k st =
         st\<lparr>lastSaveTime := lst,
            timers := timers st @ [\<lparr>handle = nextHandle st, due = now + BASE_DELAY * 2 ^ k,
                 t_categories = cs, t_retryCount = k + 1\<rparr>],
            nextHandle := Suc (nextHandle st), remote := db,
            trace := trace st @ Attempt now cs k # Remote GetSession #
               (evs @ [SetTimeout (nextHandle st) (BASE_DELAY * 2 ^ k)])\<rparr>"
        by (simp add: emit_def setTimeout_def)
      then show ?thesis by blast
    next
      case False
      then have "saveDataToSupabase e now cs k st = ?st'\<lparr>lastSaveTime := 0\<rparr>"
        using st Some by (auto simp add: saveDataToSupabase_def)
      then have "saveDataToSupabase e now cs k st =
         st\<lparr>lastSaveTime := 0, timers := timers st, nextHandle := nextHandle st, remote := db,
           trace := trace st @ Attempt now cs k # Remote GetSession # evs\<rparr>"
        by (simp add: emit_def)
      then show ?thesis by blast
    qed
  qed
qed

subsection \<open>The sub-user branch writes progress rows only\<close>

lemma writes_append [simp]: "writes (xs @ ys) = writes xs @ writes ys"
  by (induction xs rule: writes.induct) simp_all

lemma since_update [simp]:
  "since st (st'\<lparr>trace := trace st @ evs\<rparr>) = evs"
  by (simp add: since_def)

lemma upsert_row_keeps_others:
  assumes "\<not> P r" and "\<forall>x. key x = key r \<longrightarrow> \<not> P x"
  shows "filter P (upsert_row key r tbl) = filter P tbl"
proof -
  have "filter P (map (\<lambda>x. if key x = key r then r else x) tbl) = filter P tbl"
    using assms by (induction tbl) auto
  then show ?thesis using assms by (simp add: upsert_row_def)
qed

lemma upsert_keeps_others:
  assumes "\<forall>r \<in> set rows. \<not> P r \<and> (\<forall>x. key x = key r \<longrightarrow> \<not> P x)"
  shows "filter P (upsert key rows tbl) = filter P tbl"
  using assms unfolding upsert_def
proof (induction rows arbitrary: tbl)
  case Nil
  show ?case by simp
next
  case (Cons r rows)
  then show ?case using upsert_row_keeps_others [of P r key tbl] by simp
qed

lemma progressPayload_user: "\<forall>row \<in> set (progressPayload u cs). up_user_id row = u"
  by (auto simp: progressPayload_def)

lemma progressPayload_problems:
  "map up_problem_id (progressPayload u cs) = concat (map (\<lambda>c. map p_id (c_problems c)) cs)"
  by (induction cs) (simp_all add: progressPayload_def comp_def)

lemma progress_upsert_keeps_others:
  "filter (\<lambda>r. up_user_id r \<noteq> u) (upsert progress_key (progressPayload u cs) tbl)
   = filter (\<lambda>r. up_user_id r \<noteq> u) tbl"
proof (rule upsert_keeps_others)
  show "\<forall>r\<in>set (progressPayload u cs).
       \<not> up_user_id r \<noteq> u \<and> (\<forall>x. progress_key x = progress_key r \<longrightarrow> \<not> up_user_id x \<noteq> u)"
    using progressPayload_user [of u cs] by (auto simp: progress_key_def)
qed

lemma saveDataToSupabase_subuser:
  assumes "session e = Some u" and "\<not> getIsAdminUser e (remote st)"
  shows "\<exists>lst tms nh ptbl evs. saveDataToSupabase e now cs k st =
      st\<lparr>lastSaveTime := lst, timers := tms, nextHandle := nh,
         remote := (remote st)\<lparr>progress_tbl := ptbl\<rparr>,
         trace := trace st @ evs\<rparr> \<and>
      writes evs = (if fails e GetSession = None then [UpsertProgress (progressPayload u cs)] else []) \<and>
      (ptbl = progress_tbl (remote st) \<or>
       ptbl = upsert progress_key (progressPayload u cs) (progress_tbl (remote st)))"
proof -
  let ?P = "progressPayload u cs"
  let ?st0 = "emit (Attempt now cs k) st"
  have tr: "\<exists>db evs. save_try e now cs ?st0 =
      (fst (save_try e now cs ?st0),
       ?st0\<lparr>lastSaveTime := (if fails e GetSession = None then now else lastSaveTime st),
            remote := (remote st)\<lparr>progress_tbl := db\<rparr>, trace := trace st @ evs\<rparr>) \<and>
      writes evs = (if fails e GetSession = None then [UpsertProgress ?P] else []) \<and>
      (db = progress_tbl (remote st) \<or> db = upsert progress_key ?P (progress_tbl (remote st)))"
  proof (cases "fails e GetSession")
    case (Some err)
    then have "save_try e now cs ?st0 =
       (Some err, ?st0\<lparr>lastSaveTime := lastSaveTime st,
            remote := (remote st)\<lparr>progress_tbl := progress_tbl (remote st)\<rparr>,
            trace := trace st @ [Attempt now cs k, Remote GetSession]\<rparr>)"
      by (simp add: save_try_def do_request_unfold emit_def)
    then show ?thesis using Some by (intro exI) auto
  next
    case None
    show ?thesis
    proof (cases "fails e (UpsertProgress ?P)")
      case no: None
      have "save_try e now cs ?st0 =
       (None, ?st0\<lparr>lastSaveTime := now,
            remote := (remote st)\<lparr>progress_tbl := upsert progress_key ?P (progress_tbl (remote st))\<rparr>,
            trace := trace st @ [Attempt now cs k, Remote GetSession, Remote (UpsertProgress ?P)]\<rparr>)"
        using None no assms by (simp add: save_try_def do_request_unfold emit_def)
      then show ?thesis using None by (intro exI) auto
    next
      case (Some err)
      have "save_try e now cs ?st0 =
       (Some err, ?st0\<lparr>lastSaveTime := now,
            remote := (remote st)\<lparr>progress_tbl := progress_tbl (remote st)\<rparr>,
            trace := trace st @ [Attempt now cs k, Remote GetSession, Remote (UpsertProgress ?P)]\<rparr>)"
        using None Some assms by (simp add: save_try_def do_request_unfold emit_def)
      then show ?thesis using None by (intro exI) auto
    qed
  qed
  then obtain db evs where
    st: "save_try e now cs ?st0 =
      (fst (save_try e now cs ?st0),
       ?st0\<lparr>lastSaveTime := (if fails e GetSession = None then now else lastSaveTime st),
            remote := (remote st)\<lparr>progress_tbl := db\<rparr>, trace := trace st @ evs\<rparr>)"
    and w: "writes evs = (if fails e GetSession = None then [UpsertProgress ?P] else [])"
    and d: "db = progress_tbl (remote st) \<or> db = upsert progress_key ?P (progress_tbl (remote st))"
    by blast
  let ?st' = "?st0\<lparr>lastSaveTime := (if fails e GetSession = None then now else lastSaveTime st),
            remote := (remote st)\<lparr>progress_tbl := db\<rparr>, trace := trace st @ evs\<rparr>"
  show ?thesis
  proof (cases "fst (save_try e now cs ?st0)")
    case None
    then have "saveDataToSupabase e now cs k st = ?st'"
      using st by (simp add: saveDataToSupabase_def)
    then have "saveDataToSupabase e now cs k st =
       st\<lparr>lastSaveTime := (if fails e GetSession = None then now else lastSaveTime st),
          timers := timers st, nextHandle := nextHandle st,
          remote := (remote st)\<lparr>progress_tbl := db\<rparr>, trace := trace st @ evs\<rparr>"
      by (simp add: emit_def)
    then show ?thesis using w d by blast
  next
    case (Some err)
    show ?thesis
    proof (cases "k < MAX_RETRIES \<and> retryable err")
      case True
      then have "saveDataToSupabase e now cs k st =
         snd (setTimeout now (BASE_DELAY * 2 ^ k) cs (k + 1) ?st')"
        using st Some by (simp add: saveDataToSupabase_def)
      then have "saveDataToSupabase e now cs k st =
         st\<lparr>lastSaveTime := (if fails e GetSession = None then now else lastSaveTime st),
            timers := timers st @ [\<lparr>handle = nextHandle st, due = now + BASE_DELAY * 2 ^ k,
                 t_categories = cs, t_retryCount = k + 1\<rparr>],
            nextHandle := Suc (nextHandle st), remote := (remote st)\<lparr>progress_tbl := db\<rparr>,
            trace := trace st @ (evs @ [SetTimeout (nextHandle st) (BASE_DELAY * 2 ^ k)])\<rparr>"
        by (simp add: emit_def setTimeout_def)
      moreover have "writes (evs @ [SetTimeout (nextHandle st) (BASE_DELAY * 2 ^ k)]) =
          (if fails e GetSession = None then [UpsertProgress ?P] else [])"
        using w by simp
      ultimately show ?thesis using d by blast
    next
      case False
      then have "saveDataToSupabase e now cs k st = ?st'\<lparr>lastSaveTime := 0\<rparr>"
        using st Some by (auto simp add: saveDataToSupabase_def)
      then have "saveDataToSupabase e now cs k st =
         st\<lparr>lastSaveTime := 0, timers := timers st, nextHandle := nextHandle st,
           remote := (remote st)\<lparr>progress_tbl := db\<rparr>, trace := trace st @ evs\<rparr>"
        by (simp add: emit_def)
      then show ?thesis using w d by blast
    qed
  qed
qed

lemma prefix_state:
  "\<exists>ls tms. (case saveTimeout (setItem e cs st) of
            Some h \<Rightarrow> clearTimeout h (setItem e cs st) | None \<Rightarrow> setItem e cs st)
     = st\<lparr>localStorage := ls, timers := tms, trace := trace st @ save_prefix e cs st\<rparr>"
proof (cases "saveTimeout st")
  case None
  then have "(case saveTimeout (setItem e cs st) of
            Some h \<Rightarrow> clearTimeout h (setItem e cs st) | None \<Rightarrow> setItem e cs st)
     = st\<lparr>localStorage := (if setItem_throws e then localStorage st else Snapshot cs),
          timers := timers st, trace := trace st @ save_prefix e cs st\<rparr>"
    by (simp add: setItem_def emit_def save_prefix_def)
  then show ?thesis by blast
next
  case (Some h)
  then have "(case saveTimeout (setItem e cs st) of
            Some h \<Rightarrow> clearTimeout h (setItem e cs st) | None \<Rightarrow> setItem e cs st)
     = st\<lparr>localStorage := (if setItem_throws e then localStorage st else Snapshot cs),
          timers := filter (\<lambda>tm. handle tm \<noteq> h) (timers st),
          trace := trace st @ save_prefix e cs st\<rparr>"
    by (simp add: setItem_def clearTimeout_def emit_def save_prefix_def)
  then show ?thesis by blast
qed

lemma writes_save_prefix [simp]: "writes (save_prefix e cs st) = []"
  by (simp add: save_prefix_def split: option.splits)

lemma only_own_progress_saveDataToSupabase:
  assumes "session e = Some u" and "\<not> getIsAdminUser e (remote st)"
    and "remote st = remote st0" and "trace st = trace st0 @ pre" and "writes pre = []"
  shows "only_own_progress u cs st0 (saveDataToSupabase e now cs k st)"
proof -
  from saveDataToSupabase_subuser [OF assms(1,2), of now cs k]
  obtain lst tms nh ptbl evs where
    eq: "saveDataToSupabase e now cs k st =
      st\<lparr>lastSaveTime := lst, timers := tms, nextHandle := nh,
         remote := (remote st)\<lparr>progress_tbl := ptbl\<rparr>, trace := trace st @ evs\<rparr>"
    and w: "writes evs = (if fails e GetSession = None then [UpsertProgress (progressPayload u cs)] else [])"
    and p: "ptbl = progress_tbl (remote st) \<or>
       ptbl = upsert progress_key (progressPayload u cs) (progress_tbl (remote st))"
    by blast
  have s: "since st0 (saveDataToSupabase e now cs k st) = pre @ evs"
    using assms(4) by (simp add: eq since_def)
  have f: "filter (\<lambda>r. up_user_id r \<noteq> u) ptbl =
        filter (\<lambda>r. up_user_id r \<noteq> u) (progress_tbl (remote st))"
    using p progress_upsert_keeps_others [of u cs "progress_tbl (remote st)"] by auto
  show ?thesis
    unfolding only_own_progress_def s
    using w f assms(3,5) by (auto simp add: eq)
qed

subsection \<open>Retries\<close>

lemma save_try_requests:
  "\<exists>rs db lst. save_try e now cs st =
     (fst (save_try e now cs st),
      st\<lparr>lastSaveTime := lst, remote := db, trace := trace st @ map Remote (GetSession # rs)\<rparr>)"
proof (cases "fails e GetSession")
  case (Some err)
  then have "save_try e now cs st =
     (Some err, st\<lparr>lastSaveTime := lastSaveTime st, remote := remote st,
                   trace := trace st @ map Remote (GetSession # [])\<rparr>)"
    by (simp add: save_try_def do_request_unfold)
  then show ?thesis by (metis fst_conv)
next
  case None
  let ?st1 = "st\<lparr>remote := remote st, trace := trace st @ [Remote GetSession]\<rparr>"
  show ?thesis
  proof (cases "session e")
    case no: None
    have "save_try e now cs st =
     (None, st\<lparr>lastSaveTime := lastSaveTime st, remote := remote st,
               trace := trace st @ map Remote (GetSession # [])\<rparr>)"
      using None no by (simp add: save_try_def do_request_unfold)
    then show ?thesis by (metis fst_conv)
  next
    case (Some u)
    let ?st2 = "?st1\<lparr>lastSaveTime := now\<rparr>"
    let ?rs = "if getIsAdminUser e (remote st) then admin_requests u cs (remote st)
               else [UpsertProgress (progressPayload u cs)]"
    have eq: "save_try e now cs st = do_requests e ?rs ?st2"
      using None Some by (simp add: save_try_def do_request_unfold Let_def del: do_requests.simps)
    from do_requests_shape [of e ?rs ?st2] obtain k db where
      "do_requests e ?rs ?st2 =
        (fst (do_requests e ?rs ?st2), ?st2\<lparr>remote := db, trace := trace ?st2 @ map Remote (take k ?rs)\<rparr>)"
      by blast
    then have "save_try e now cs st =
      (fst (save_try e now cs st),
       st\<lparr>lastSaveTime := now, remote := db,
          trace := trace st @ map Remote (GetSession # take k ?rs)\<rparr>)"
      using eq by simp
    then show ?thesis by blast
  qed
qed

lemma saveDataToSupabase_retry:
  assumes "fst (save_try e now cs (emit (Attempt now cs k) st)) = Some err"
    and "k < MAX_RETRIES" and "retryable err"
  shows "\<exists>rs db lst. saveDataToSupabase e now cs k st =
      st\<lparr>lastSaveTime := lst,
         timers := timers st @ [\<lparr>handle = nextHandle st, due = now + BASE_DELAY * 2 ^ k,
                                 t_categories = cs, t_retryCount = Suc k\<rparr>],
         nextHandle := Suc (nextHandle st), remote := db,
         trace := trace st @ Attempt now cs k # map Remote (GetSession # rs)
                    @ [SetTimeout (nextHandle st) (BASE_DELAY * 2 ^ k)]\<rparr>"
proof -
  let ?st0 = "emit (Attempt now cs k) st"
  from save_try_requests [of e now cs ?st0] obtain rs db lst where
    st: "save_try e now cs ?st0 =
      (Some err, ?st0\<lparr>lastSaveTime := lst, remote := db,
                     trace := trace ?st0 @ map Remote (GetSession # rs)\<rparr>)"
    using assms(1) by auto
  have "saveDataToSupabase e now cs k st =
      st\<lparr>lastSaveTime := lst,
         timers := timers st @ [\<lparr>handle = nextHandle st, due = now + BASE_DELAY * 2 ^ k,
                                 t_categories = cs, t_retryCount = Suc k\<rparr>],
         nextHandle := Suc (nextHandle st), remote := db,
         trace := trace st @ Attempt now cs k # map Remote (GetSession # rs)
                    @ [SetTimeout (nextHandle st) (BASE_DELAY * 2 ^ k)]\<rparr>"
    unfolding saveDataToSupabase_def st using assms(2,3) by (simp add: setTimeout_def emit_def)
  then show ?thesis by blast
qed

lemma saveDataToSupabase_give_up:
  assumes "fst (save_try e now cs (emit (Attempt now cs k) st)) = Some err"
    and "\<not> (k < MAX_RETRIES \<and> retryable err)"
  shows "\<exists>rs db. saveDataToSupabase e now cs k st =
      st\<lparr>lastSaveTime := 0, remote := db,
         trace := trace st @ Attempt now cs k # map Remote (GetSession # rs)\<rparr>"
proof -
  let ?st0 = "emit (Attempt now cs k) st"
  from save_try_requests [of e now cs ?st0] obtain rs db lst where
    st: "save_try e now cs ?st0 =
      (Some err, ?st0\<lparr>lastSaveTime := lst, remote := db,
                     trace := trace ?st0 @ map Remote (GetSession # rs)\<rparr>)"
    using assms(1) by auto
  have "saveDataToSupabase e now cs k st =
      st\<lparr>lastSaveTime := 0, remote := db,
         trace := trace st @ Attempt now cs k # map Remote (GetSession # rs)\<rparr>"
    unfolding saveDataToSupabase_def st using assms(2) by (auto simp add: emit_def)
  then show ?thesis by blast
qed

lemma attempts_requests [simp]: "filter is_attempt (map Remote rs) = []"
  by (induction rs) simp_all

subsection \<open>The steps of saveData\<close>

lemma cleared_eq:
  "cleared e cs st =
     st\<lparr>localStorage := (if setItem_throws e then localStorage st else Snapshot cs),
        timers := (case saveTimeout st of
                     Some h \<Rightarrow> filter (\<lambda>tm. handle tm \<noteq> h) (timers st)
                   | None \<Rightarrow> timers st),
        trace := trace st @ save_prefix e cs st\<rparr>"
  by (cases "saveTimeout st")
     (simp_all add: cleared_def setItem_def clearTimeout_def emit_def save_prefix_def)

lemma saveData_unfold:
  "saveData e now cs force st =
     (if force \<or> \<not> now - lastSaveTime st < MIN_SAVE_INTERVAL_MS
      then saveDataToSupabase e now cs 0 (cleared e cs st)
      else (cleared e cs st)
             \<lparr>saveTimeout := Some (nextHandle st),
              timers := timers (cleared e cs st) @
                 [\<lparr>handle = nextHandle st, due = now + SAVE_DEBOUNCE_MS,
                   t_categories = cs, t_retryCount = 0\<rparr>],
              nextHandle := Suc (nextHandle st),
              trace := trace st @ save_prefix e cs st @ [SetTimeout (nextHandle st) SAVE_DEBOUNCE_MS]\<rparr>)"
proof -
  have l: "lastSaveTime (cleared e cs st) = lastSaveTime st"
    and n: "nextHandle (cleared e cs st) = nextHandle st"
    and t: "trace (cleared e cs st) = trace st @ save_prefix e cs st"
    by (simp_all add: cleared_eq)
  have "saveData e now cs force st =
     (if force then saveDataToSupabase e now cs 0 (cleared e cs st)
      else if now - lastSaveTime (cleared e cs st) < MIN_SAVE_INTERVAL_MS
      then (case setTimeout now SAVE_DEBOUNCE_MS cs 0 (cleared e cs st) of
                 (h, st3) \<Rightarrow> st3\<lparr>saveTimeout := Some h\<rparr>)
      else saveDataToSupabase e now cs 0 (cleared e cs st))"
    by (simp add: saveData_def cleared_def Let_def)
  then show ?thesis
    using l n t by (simp add: setTimeout_def emit_def)
qed

lemma saveData_frame:
  "\<exists>post. localStorage (saveData e now cs force st) =
            (if setItem_throws e then localStorage st else Snapshot cs) \<and>
          trace (saveData e now cs force st) = trace st @ save_prefix e cs st @ post"
proof (cases "force \<or> \<not> now - lastSaveTime st < MIN_SAVE_INTERVAL_MS")
  case True
  let ?c = "cleared e cs st"
  from saveDataToSupabase_shape [of e now cs 0 ?c] obtain evs db lst tms nh where
    sh: "saveDataToSupabase e now cs 0 ?c =
       ?c\<lparr>lastSaveTime := lst, timers := tms, nextHandle := nh, remote := db,
         trace := trace ?c @ Attempt now cs 0 # Remote GetSession # evs\<rparr>"
    by blast
  have "localStorage (saveData e now cs force st) =
            (if setItem_throws e then localStorage st else Snapshot cs)"
    using True by (simp add: saveData_unfold sh) (simp add: cleared_eq)
  moreover have "trace (saveData e now cs force st) =
      trace st @ save_prefix e cs st @ (Attempt now cs 0 # Remote GetSession # evs)"
    using True by (simp add: saveData_unfold sh) (simp add: cleared_eq)
  ultimately show ?thesis by blast
next
  case False
  then have "localStorage (saveData e now cs force st) =
            (if setItem_throws e then localStorage st else Snapshot cs)"
    by (simp add: saveData_unfold) (simp add: cleared_eq)
  moreover have "trace (saveData e now cs force st) =
      trace st @ save_prefix e cs st @ [SetTimeout (nextHandle st) SAVE_DEBOUNCE_MS]"
    using False by (simp add: saveData_unfold)
  ultimately show ?thesis by blast
qed

lemma loadData_fallback:
  assumes "\<forall>cs. load_remote e db \<noteq> Inr (Some cs)" and "load_local e s = Inr l"
  shows "loadData e db s = Inr l"
proof (cases "load_remote e db")
  case (Inl err)
  then show ?thesis using assms(2) by (simp add: loadData_def)
next
  case (Inr res)
  then have "res = None" using assms(1) by (cases res) auto
  then show ?thesis using Inr assms(2) by (simp add: loadData_def)
qed

lemma load_local_snapshot:
  "\<not> getItem_throws e \<Longrightarrow>
   load_local e (Snapshot cs) = Inr (if cs = [] then sample_catalog else cs)"
  by (simp add: load_local_def)

subsection \<open>The overlay of a sub-user\<close>

lemma progressByProblem_snoc:
  "progressByProblem (rows @ [row]) =
     (progressByProblem rows)(up_problem_id row \<mapsto>
        (up_completed row, case up_note row of None \<Rightarrow> '''' | Some n \<Rightarrow> n))"
  by (simp add: progressByProblem_def)

lemma progressByProblem_none:
  "(\<forall>row \<in> set rows. up_problem_id row \<noteq> p) \<Longrightarrow> progressByProblem rows p = None"
proof (induction rows rule: rev_induct)
  case Nil
  show ?case by (simp add: progressByProblem_def)
next
  case (snoc row rows)
  have "progressByProblem rows p = None" using snoc by simp
  moreover have "up_problem_id row \<noteq> p" using snoc.prems by simp
  ultimately show ?case by (simp add: progressByProblem_snoc)
qed

lemma progressByProblem_unique:
  assumes "row \<in> set rows" and "up_problem_id row = p"
    and "\<forall>row' \<in> set rows. up_problem_id row' = p \<longrightarrow> row' = row"
  shows "progressByProblem rows p =
     Some (up_completed row, case up_note row of None \<Rightarrow> '''' | Some n \<Rightarrow> n)"
  using assms
proof (induction rows rule: rev_induct)
  case Nil
  then show ?case by simp
next
  case (snoc x rows)
  show ?case
  proof (cases "up_problem_id x = p")
    case True
    have "x \<in> set (rows @ [x])" by simp
    then have "x = row" using snoc.prems(3) True by blast
    then show ?thesis using True by (simp add: progressByProblem_snoc)
  next
    case False
    then have x: "x \<noteq> row" using snoc.prems(2) by blast
    then have m: "row \<in> set rows" using snoc.prems(1) by simp
    have u: "\<forall>row' \<in> set rows. up_problem_id row' = p \<longrightarrow> row' = row"
      using snoc.prems(3) by simp
    have "progressByProblem rows p =
       Some (up_completed row, case up_note row of None \<Rightarrow> '''' | Some n \<Rightarrow> n)"
      using snoc.IH [OF m snoc.prems(2) u] .
    then show ?thesis using False by (simp add: progressByProblem_snoc)
  qed
qed

lemma load_remote_subuser:
  assumes "session e = Some u" and "\<not> getIsAdminUser e db" and "fails e GetSession = None"
  shows "load_remote e db =
     (case load_subuser e u db of Inl err \<Rightarrow> Inl err | Inr cs \<Rightarrow> Inr (Some cs))"
  using assms by (simp add: load_remote_def)

lemma loadData_subuser:
  assumes "session e = Some u" and "\<not> getIsAdminUser e db" and "fails e GetSession = None"
    and "fails e (SelectCategories None) = None" and "fails e (SelectProblems None) = None"
    and "fails e (SelectProgress u) = None"
  shows "loadData e db s = Inr (subuser_tree u db)"
proof -
  have "load_subuser e u db = Inr (subuser_tree u db)"
    using assms(4-6) by (simp add: load_subuser_def subuser_tree_def Let_def)
  then have "load_remote e db = Inr (Some (subuser_tree u db))"
    using load_remote_subuser [OF assms(1-3)] by simp
  then show ?thesis by (simp add: loadData_def)
qed

lemma subuser_tree_problem:
  assumes "c \<in> set (subuser_tree u db)" and "p \<in> set (c_problems c)"
  shows "\<exists>prob \<in> set (problems_tbl db).
           p = overlay_problem
                 (progressByProblem (filter (\<lambda>r. up_user_id r = u) (progress_tbl db))) prob"
  using assms by (auto simp: subuser_tree_def)

lemma overlay_problem_id [simp]: "p_id (overlay_problem m prob) = pr_id prob"
  by (simp add: overlay_problem_def Let_def)

lemma subuser_tree_default:
  assumes "c \<in> set (subuser_tree u db)" and "p \<in> set (c_problems c)"
    and "\<forall>r \<in> set (progress_tbl db). \<not> (up_user_id r = u \<and> up_problem_id r = p_id p)"
  shows "p_completed p = False \<and> p_note p = Some ''''"
proof -
  let ?m = "progressByProblem (filter (\<lambda>r. up_user_id r = u) (progress_tbl db))"
  obtain prob where p: "p = overlay_problem ?m prob"
    using subuser_tree_problem [OF assms(1,2)] by blast
  have "?m (pr_id prob) = None"
    using assms(3) p by (intro progressByProblem_none) auto
  then show ?thesis by (simp add: p overlay_problem_def)
qed

lemma subuser_tree_overlay:
  assumes "c \<in> set (subuser_tree u db)" and "p \<in> set (c_problems c)"
    and "r \<in> set (progress_tbl db)" and "up_user_id r = u" and "up_problem_id r = p_id p"
    and "\<forall>r' \<in> set (progress_tbl db).
           up_user_id r' = u \<and> up_problem_id r' = p_id p \<longrightarrow> r' = r"
  shows "p_completed p = up_completed r \<and>
         p_note p = Some (case up_note r of None \<Rightarrow> '''' | Some n \<Rightarrow> n)"
proof -
  let ?rows = "filter (\<lambda>r. up_user_id r = u) (progress_tbl db)"
  let ?m = "progressByProblem ?rows"
  obtain prob where p: "p = overlay_problem ?m prob"
    using subuser_tree_problem [OF assms(1,2)] by blast
  have "?m (pr_id prob) =
      Some (up_completed r, case up_note r of None \<Rightarrow> '''' | Some n \<Rightarrow> n)"
  proof (rule progressByProblem_unique)
    show "r \<in> set ?rows" using assms(3,4) by simp
    show "up_problem_id r = pr_id prob" using assms(5) p by simp
    show "\<forall>row'\<in>set ?rows. up_problem_id row' = pr_id prob \<longrightarrow> row' = r"
      using assms(6) p by simp
  qed
  then show ?thesis by (simp add: p overlay_problem_def)
qed

lemma subuser_tree_covers:
  assumes "cr \<in> set (categories_tbl db)" and "pr \<in> set (problems_tbl db)"
    and "pr_category_id pr = cr_id cr"
  shows "\<exists>c \<in> set (subuser_tree u db). c_id c = cr_id cr \<and>
           (\<exists>p \<in> set (c_problems c). p_id p = pr_id pr)"
proof -
  let ?m = "progressByProblem (filter (\<lambda>r. up_user_id r = u) (progress_tbl db))"
  let ?c = "\<lparr>c_id = cr_id cr, c_title = cr_title cr,
            c_problems = map (overlay_problem ?m)
                (filter (\<lambda>prob. pr_category_id prob = cr_id cr) (problems_tbl db))\<rparr>"
  have "?c \<in> set (subuser_tree u db)" using assms(1) by (auto simp: subuser_tree_def)
  moreover have "overlay_problem ?m pr \<in> set (c_problems ?c)" using assms(2,3) by simp
  moreover have "p_id (overlay_problem ?m pr) = pr_id pr" by simp
  moreover have "c_id ?c = cr_id cr" by simp
  ultimately show ?thesis by blast
qed

lemma subuser_tree_own_rows:
  assumes "categories_tbl db' = categories_tbl db" and "problems_tbl db' = problems_tbl db"
    and "filter (\<lambda>r. up_user_id r = u) (progress_tbl db') =
         filter (\<lambda>r. up_user_id r = u) (progress_tbl db)"
  shows "subuser_tree u db' = subuser_tree u db"
  using assms by (simp add: subuser_tree_def)

subsection \<open>Upserts\<close>

lemma upsert_row_set:
  "set (upsert_row key r tbl) = insert r {x \<in> set tbl. key x \<noteq> key r}"
proof (cases "key r \<in> key ` set tbl")
  case True
  then show ?thesis by (auto simp: upsert_row_def)
next
  case False
  then have "\<And>x. x \<in> set tbl \<Longrightarrow> key x \<noteq> key r" by (metis imageI)
  then have "{x \<in> set tbl. key x \<noteq> key r} = set tbl" by blast
  then show ?thesis using False by (simp add: upsert_row_def)
qed

lemma upsert_Cons: "upsert key (r # rows) tbl = upsert key rows (upsert_row key r tbl)"
  by (simp add: upsert_def)

lemma upsert_Nil [simp]: "upsert key [] tbl = tbl"
  by (simp add: upsert_def)

lemma upsert_outside:
  "{x \<in> set (upsert key rows tbl). key x \<notin> key ` set rows} =
   {x \<in> set tbl. key x \<notin> key ` set rows}"
proof (induction rows arbitrary: tbl)
  case Nil
  show ?case by simp
next
  case (Cons r rows)
  have "{x \<in> set (upsert key (r # rows) tbl). key x \<notin> key ` set (r # rows)} =
        {x \<in> set (upsert key rows (upsert_row key r tbl)). key x \<notin> key ` set rows} \<inter>
        {x. key x \<noteq> key r}"
    by (auto simp: upsert_Cons)
  also have "\<dots> = {x \<in> set (upsert_row key r tbl). key x \<notin> key ` set rows} \<inter> {x. key x \<noteq> key r}"
    by (simp add: Cons.IH)
  also have "\<dots> = {x \<in> set tbl. key x \<notin> key ` set (r # rows)}"
    by (auto simp: upsert_row_set)
  finally show ?case .
qed

lemma upsert_inside:
  "x \<in> set (upsert key rows tbl) \<Longrightarrow> key x \<in> key ` set rows \<Longrightarrow> x \<in> set rows"
proof (induction rows arbitrary: tbl)
  case Nil
  then show ?case by simp
next
  case (Cons r rows)
  show ?case
  proof (cases "key x \<in> key ` set rows")
    case True
    then show ?thesis using Cons.IH [of "upsert_row key r tbl"] Cons.prems(1)
      by (simp add: upsert_Cons)
  next
    case False
    then have k: "key x = key r" using Cons.prems(2) by auto
    have "x \<in> {y \<in> set (upsert key rows (upsert_row key r tbl)). key y \<notin> key ` set rows}"
      using Cons.prems(1) False by (simp add: upsert_Cons)
    then have "x \<in> set (upsert_row key r tbl)"
      unfolding upsert_outside by simp
    then have "x = r" using k by (simp add: upsert_row_set)
    then show ?thesis by simp
  qed
qed

lemma upsert_keys:
  "key ` set (upsert key rows tbl) = key ` set tbl \<union> key ` set rows"
proof (induction rows arbitrary: tbl)
  case Nil
  show ?case by simp
next
  case (Cons r rows)
  have "key ` set (upsert_row key r tbl) = insert (key r) (key ` set tbl)"
    by (auto simp: upsert_row_set)
  then show ?case using Cons.IH [of "upsert_row key r tbl"] by (auto simp: upsert_Cons)
qed

lemma upsert_snoc: "upsert key (P @ [r]) tbl = upsert_row key r (upsert key P tbl)"
  by (simp add: upsert_def)

lemma upsert_last_wins:
  "x \<in> set (upsert key P tbl) \<Longrightarrow> key x \<in> key ` set P \<Longrightarrow>
   find (\<lambda>r. key r = key x) (rev P) = Some x"
proof (induction P arbitrary: x rule: rev_induct)
  case Nil
  then show ?case by simp
next
  case (snoc r P)
  have "x \<in> insert r {y \<in> set (upsert key P tbl). key y \<noteq> key r}"
    using snoc.prems(1) by (simp add: upsert_snoc upsert_row_set)
  then show ?case
  proof
    assume "x = r"
    then show ?thesis by simp
  next
    assume "x \<in> {y \<in> set (upsert key P tbl). key y \<noteq> key r}"
    then have m: "x \<in> set (upsert key P tbl)" and n: "key x \<noteq> key r" by simp_all
    have "key x \<in> key ` set P" using snoc.prems(2) n by auto
    then have "find (\<lambda>r. key r = key x) (rev P) = Some x" using snoc.IH m by blast
    then show ?thesis using n by simp
  qed
qed

lemma upsert_known_keys:
  "\<forall>r \<in> set P. key r \<in> key ` set tbl \<Longrightarrow>
   upsert key P tbl =
     map (\<lambda>x. case find (\<lambda>r. key r = key x) (rev P) of None \<Rightarrow> x | Some r \<Rightarrow> r) tbl"
proof (induction P rule: rev_induct)
  case Nil
  show ?case by simp
next
  case (snoc r P)
  let ?f = "\<lambda>x. case find (\<lambda>r. key r = key x) (rev P) of None \<Rightarrow> x | Some r \<Rightarrow> r"
  have ih: "upsert key P tbl = map ?f tbl" using snoc by simp
  have kf: "key (?f x) = key x" for x
  proof (cases "find (\<lambda>r. key r = key x) (rev P)")
    case None
    then show ?thesis by simp
  next
    case (Some y)
    then have "key y = key x" by (metis (mono_tags, lifting) find_Some_iff)
    then show ?thesis using Some by simp
  qed
  have "key ` set (map ?f tbl) = key ` set tbl"
    by (simp add: image_image kf)
  then have "key r \<in> key ` set (upsert key P tbl)" using snoc.prems ih by simp
  then have "upsert key (P @ [r]) tbl =
      map (\<lambda>x. if key x = key r then r else x) (map ?f tbl)"
    by (simp add: upsert_snoc upsert_row_def ih)
  also have "\<dots> = map (\<lambda>x. if key x = key r then r else ?f x) tbl"
    by (simp add: kf)
  also have "\<dots> = map (\<lambda>x. case find (\<lambda>r. key r = key x) (rev (P @ [r])) of
                              None \<Rightarrow> x | Some r \<Rightarrow> r) tbl"
    by (rule map_cong) auto
  finally show ?case .
qed

lemma upsert_again:
  assumes "set tbl' \<subseteq> set (upsert key P tbl)" and "\<forall>r \<in> set P. key r \<in> key ` set tbl'"
  shows "upsert key P tbl' = tbl'"
proof -
  have "(case find (\<lambda>r. key r = key x) (rev P) of None \<Rightarrow> x | Some r \<Rightarrow> r) = x"
    if "x \<in> set tbl'" for x
  proof (cases "key x \<in> key ` set P")
    case True
    have "x \<in> set (upsert key P tbl)" using that assms(1) by blast
    then have "find (\<lambda>r. key r = key x) (rev P) = Some x"
      using True by (rule upsert_last_wins)
    then show ?thesis by simp
  next
    case False
    then have "\<And>r. r \<in> set P \<Longrightarrow> key r \<noteq> key x" by (metis imageI)
    then have "find (\<lambda>r. key r = key x) (rev P) = None"
      by (simp add: find_None_iff)
    then show ?thesis by simp
  qed
  then have "map (\<lambda>x. case find (\<lambda>r. key r = key x) (rev P) of None \<Rightarrow> x | Some r \<Rightarrow> r) tbl' = tbl'"
    by (simp add: map_idI)
  then show ?thesis using upsert_known_keys [OF assms(2)] by simp
qed

subsection \<open>Upsert the payload, delete the owner's other rows\<close>

text \<open>
  One table under an admin save: \<open>P\<close> is the payload, whose keys are \<open>desired\<close> and
  whose rows belong to \<open>u\<close>; the keys to delete are those of the rows of \<open>u\<close> that are
  not desired.
\<close>

lemma sync_outside:
  assumes "key ` set P = desired"
  shows "{x \<in> set (filter (\<lambda>r. \<not> (key r \<in> set (filter (\<lambda>i. i \<notin> desired)
                     (map key (filter (\<lambda>r. owner r = u) tbl))) \<and> owner r = u))
                 (upsert key P tbl)). key x \<notin> desired} =
         {x \<in> set tbl. key x \<notin> desired \<and> owner x \<noteq> u}"
proof -
  have out: "{x \<in> set (upsert key P tbl). key x \<notin> desired} = {x \<in> set tbl. key x \<notin> desired}"
    using upsert_outside [of key P tbl] assms by simp
  have "\<And>x. x \<in> set tbl \<Longrightarrow> key x \<notin> desired \<Longrightarrow> owner x = u \<Longrightarrow>
      key x \<in> set (filter (\<lambda>i. i \<notin> desired) (map key (filter (\<lambda>r. owner r = u) tbl)))"
    by auto
  then show ?thesis using out by auto
qed

lemma sync_inside:
  assumes "key ` set P = desired" and "\<forall>r \<in> set P. owner r = u"
  shows "key ` {x \<in> set (filter (\<lambda>r. \<not> (key r \<in> set (filter (\<lambda>i. i \<notin> desired)
                     (map key (filter (\<lambda>r. owner r = u) tbl))) \<and> owner r = u))
                 (upsert key P tbl)). owner x = u} = desired"
proof (intro set_eqI iffI)
  fix i
  assume "i \<in> key ` {x \<in> set (filter (\<lambda>r. \<not> (key r \<in> set (filter (\<lambda>i. i \<notin> desired)
                     (map key (filter (\<lambda>r. owner r = u) tbl))) \<and> owner r = u))
                 (upsert key P tbl)). owner x = u}"
  then obtain x where x: "x \<in> set (upsert key P tbl)" "owner x = u" "key x = i"
    and nd: "key x \<notin> set (filter (\<lambda>i. i \<notin> desired) (map key (filter (\<lambda>r. owner r = u) tbl)))"
    by auto
  show "i \<in> desired"
  proof (rule ccontr)
    assume "i \<notin> desired"
    then have "x \<in> {x \<in> set (upsert key P tbl). key x \<notin> key ` set P}"
      using x assms(1) by simp
    then have "x \<in> set tbl" unfolding upsert_outside by simp
    then have "key x \<in> set (filter (\<lambda>i. i \<notin> desired) (map key (filter (\<lambda>r. owner r = u) tbl)))"
      using x \<open>i \<notin> desired\<close> by auto
    then show False using nd by simp
  qed
next
  fix i
  assume i: "i \<in> desired"
  then have "i \<in> key ` set (upsert key P tbl)"
    using upsert_keys [of key P tbl] assms(1) by simp
  then obtain x where x: "x \<in> set (upsert key P tbl)" "key x = i" by auto
  then have "x \<in> set P" using upsert_inside [of x key P tbl] assms(1) i by simp
  then have "owner x = u" using assms(2) by simp
  moreover have "key x \<notin> set (filter (\<lambda>i. i \<notin> desired) (map key (filter (\<lambda>r. owner r = u) tbl)))"
    using x i by simp
  ultimately show "i \<in> key ` {x \<in> set (filter (\<lambda>r. \<not> (key r \<in> set (filter (\<lambda>i. i \<notin> desired)
                     (map key (filter (\<lambda>r. owner r = u) tbl))) \<and> owner r = u))
                 (upsert key P tbl)). owner x = u}"
    using x by auto
qed

lemma sync_keys_kept:
  assumes "key ` set P = desired"
  shows "\<forall>r \<in> set P. key r \<in> key ` set (filter (\<lambda>r. \<not> (key r \<in> set (filter (\<lambda>i. i \<notin> desired)
                     (map key (filter (\<lambda>r. owner r = u) tbl))) \<and> owner r = u))
                 (upsert key P tbl))"
proof
  fix r
  assume r: "r \<in> set P"
  define D where "D = set (filter (\<lambda>i. i \<notin> desired) (map key (filter (\<lambda>r. owner r = u) tbl)))"
  have "key r \<in> key ` set P" using r by (rule imageI)
  then have kd: "key r \<in> desired" using assms by simp
  have "key r \<in> key ` set (upsert key P tbl)"
    using \<open>key r \<in> key ` set P\<close> by (simp add: upsert_keys)
  then obtain x where x: "x \<in> set (upsert key P tbl)" and kx: "key x = key r" by auto
  have "key x \<notin> D" using kd kx by (simp add: D_def)
  then have "x \<in> set (filter (\<lambda>r. \<not> (key r \<in> D \<and> owner r = u)) (upsert key P tbl))"
    using x by simp
  then have "key x \<in> key ` set (filter (\<lambda>r. \<not> (key r \<in> D \<and> owner r = u)) (upsert key P tbl))"
    by (rule imageI)
  then show "key r \<in> key ` set (filter (\<lambda>r. \<not> (key r \<in> set (filter (\<lambda>i. i \<notin> desired)
                     (map key (filter (\<lambda>r. owner r = u) tbl))) \<and> owner r = u))
                 (upsert key P tbl))"
    unfolding D_def kx .
qed

lemma sync_nothing_left:
  assumes "key ` {x \<in> set tbl'. owner x = u} = desired"
  shows "filter (\<lambda>i. i \<notin> desired) (map key (filter (\<lambda>r. owner r = u) tbl')) = []"
  using assms by (auto simp: filter_empty_conv)

subsection \<open>The admin branch\<close>

lemma admin_requests_eq:
  "admin_requests u cs db =
     [SelectCategoryIds u, SelectProblemIds u, UpsertCategories (categoriesPayload u cs),
      UpsertProblems (problemsPayload u cs)] @ delete_requests u cs db"
  by (simp add: admin_requests_def delete_requests_def)

lemma categoriesPayload_ids: "map cr_id (categoriesPayload u cs) = map c_id cs"
proof -
  have "map cr_id (categoriesPayload u cs) = map (c_id \<circ> snd) (enumerate 0 cs)"
    by (simp add: categoriesPayload_def comp_def case_prod_beta)
  also have "\<dots> = map c_id (map snd (enumerate 0 cs))" by (simp only: map_map)
  also have "\<dots> = map c_id cs" by (simp only: map_snd_enumerate)
  finally show ?thesis .
qed

lemma categoriesPayload_keys: "cr_id ` set (categoriesPayload u cs) = desiredCategoryIds cs"
  using categoriesPayload_ids [of u cs]
  by (metis desiredCategoryIds_def set_map)

lemma categoriesPayload_owner: "\<forall>r \<in> set (categoriesPayload u cs). cr_user_id r = u"
  by (auto simp: categoriesPayload_def)

lemma problemsPayload_ids:
  "map pr_id (problemsPayload u cs) = concat (map (\<lambda>c. map p_id (c_problems c)) cs)"
  by (induction cs) (simp_all add: problemsPayload_def comp_def)

lemma problemsPayload_keys: "pr_id ` set (problemsPayload u cs) = desiredProblemIds cs"
  using problemsPayload_ids [of u cs]
  by (metis desiredProblemIds_def set_map)

lemma problemsPayload_owner: "\<forall>r \<in> set (problemsPayload u cs). pr_user_id r = u"
  by (auto simp: problemsPayload_def)

lemma admin_requests_effect:
  "fold apply_request (admin_requests u cs db) db = synced u cs db"
proof -
  have p: "problemsToDelete u cs db = [] \<Longrightarrow>
     filter (\<lambda>r. \<not> (pr_id r \<in> set (problemsToDelete u cs db) \<and> pr_user_id r = u)) t = t" for t
    by simp
  have c: "categoriesToDelete u cs db = [] \<Longrightarrow>
     filter (\<lambda>r. \<not> (cr_id r \<in> set (categoriesToDelete u cs db) \<and> cr_user_id r = u)) t = t" for t
    by simp
  show ?thesis
    by (cases "problemsToDelete u cs db = []"; cases "categoriesToDelete u cs db = []")
       (simp_all add: admin_requests_def synced_def p c)
qed

lemma saveDataToSupabase_admin:
  assumes "session e = Some u" and "getIsAdminUser e (remote st)" and "\<forall>r. fails e r = None"
  shows "saveDataToSupabase e now cs k st =
     st\<lparr>lastSaveTime := now, remote := synced u cs (remote st),
        trace := trace st @ Attempt now cs k # Remote GetSession #
                   map Remote (admin_requests u cs (remote st))\<rparr>"
proof -
  let ?st0 = "emit (Attempt now cs k) st"
  let ?st2 = "?st0\<lparr>remote := remote st, trace := trace ?st0 @ [Remote GetSession],
                  lastSaveTime := now\<rparr>"
  have "save_try e now cs ?st0 = do_requests e (admin_requests u cs (remote st)) ?st2"
    using assms by (simp add: save_try_def do_request_unfold emit_def Let_def del: do_requests.simps)
  also have "\<dots> = (None, ?st2\<lparr>remote := fold apply_request (admin_requests u cs (remote st)) (remote ?st2),
        trace := trace ?st2 @ map Remote (admin_requests u cs (remote st))\<rparr>)"
    using assms(3) by (intro do_requests_ok) simp
  finally have "save_try e now cs ?st0 =
     (None, ?st2\<lparr>remote := synced u cs (remote st),
        trace := trace ?st2 @ map Remote (admin_requests u cs (remote st))\<rparr>)"
    by (simp add: admin_requests_effect)
  then show ?thesis
    unfolding saveDataToSupabase_def by (simp add: emit_def)
qed

subsection \<open>The delete calls of any save\<close>

lemma is_delete_delete_requests:
  "filter is_delete (map Remote (delete_requests u cs db)) = map Remote (delete_requests u cs db)"
  by (simp add: delete_requests_def)

lemma deletes_of_admin_prefix:
  "\<exists>m. filter is_delete (map Remote (take n (admin_requests u cs db))) =
        take m (map Remote (delete_requests u cs db))"
proof -
  let ?pre = "[SelectCategoryIds u, SelectProblemIds u, UpsertCategories (categoriesPayload u cs),
      UpsertProblems (problemsPayload u cs)]"
  have "filter is_delete (map Remote (take n ?pre)) = []"
    by (cases n rule: nat.exhaust; simp; cases "n - 1"; simp; cases "n - 2"; simp;
        cases "n - 3"; simp)
  moreover have "filter is_delete (map Remote (take (n - length ?pre) (delete_requests u cs db))) =
      take (n - length ?pre) (map Remote (delete_requests u cs db))"
  proof -
    have "filter is_delete (map Remote (take j (delete_requests u cs db))) =
        map Remote (take j (delete_requests u cs db))" for j
      by (cases j; simp add: delete_requests_def; cases "j - 1"; simp)
    then show ?thesis by (simp add: take_map)
  qed
  ultimately have "filter is_delete (map Remote (take n (admin_requests u cs db))) =
      take (n - length ?pre) (map Remote (delete_requests u cs db))"
    unfolding admin_requests_eq take_append map_append filter_append by simp
  then show ?thesis by blast
qed

lemma trace_save_try_deletes:
  assumes "session e = Some u"
  shows "\<exists>evs m. trace (snd (save_try e now cs st)) = trace st @ evs \<and>
     filter is_delete evs = take m (map Remote (delete_requests u cs (remote st)))"
proof (cases "fails e GetSession")
  case (Some err)
  then have "trace (snd (save_try e now cs st)) = trace st @ [Remote GetSession]"
    by (simp add: save_try_def do_request_unfold)
  moreover have "filter is_delete [Remote GetSession] =
     take 0 (map Remote (delete_requests u cs (remote st)))" by simp
  ultimately show ?thesis by blast
next
  case None
  let ?st2 = "st\<lparr>remote := remote st, trace := trace st @ [Remote GetSession], lastSaveTime := now\<rparr>"
  let ?rs = "if getIsAdminUser e (remote st) then admin_requests u cs (remote st)
             else [UpsertProgress (progressPayload u cs)]"
  have eq: "save_try e now cs st = do_requests e ?rs ?st2"
    using None assms by (simp add: save_try_def do_request_unfold Let_def del: do_requests.simps)
  from do_requests_shape [of e ?rs ?st2] obtain n db where
    dr: "do_requests e ?rs ?st2 =
       (fst (do_requests e ?rs ?st2), ?st2\<lparr>remote := db, trace := trace ?st2 @ map Remote (take n ?rs)\<rparr>)"
    by blast
  have "snd (do_requests e ?rs ?st2) =
      ?st2\<lparr>remote := db, trace := trace ?st2 @ map Remote (take n ?rs)\<rparr>"
    by (subst dr) (rule snd_conv)
  then have "trace (snd (do_requests e ?rs ?st2)) =
      trace st @ (Remote GetSession # map Remote (take n ?rs))"
    by simp
  then have tr: "trace (snd (save_try e now cs st)) =
      trace st @ (Remote GetSession # map Remote (take n ?rs))"
    by (simp only: eq)
  have "\<exists>m. filter is_delete (map Remote (take n ?rs)) =
        take m (map Remote (delete_requests u cs (remote st)))"
  proof (cases "getIsAdminUser e (remote st)")
    case True
    then show ?thesis using deletes_of_admin_prefix [of n u cs "remote st"] by simp
  next
    case False
    have "filter is_delete (map Remote (take n [UpsertProgress (progressPayload u cs)])) =
        take 0 (map Remote (delete_requests u cs (remote st)))"
      by (cases n) simp_all
    then show ?thesis using False by auto
  qed
  then obtain m where "filter is_delete (Remote GetSession # map Remote (take n ?rs)) =
        take m (map Remote (delete_requests u cs (remote st)))"
    by auto
  then show ?thesis using tr by blast
qed

lemma trace_saveDataToSupabase_deletes:
  assumes "session e = Some u"
  shows "\<exists>m. filter is_delete (since st (saveDataToSupabase e now cs k st)) =
     take m (map Remote (delete_requests u cs (remote st)))"
proof -
  let ?st0 = "emit (Attempt now cs k) st"
  from trace_save_try_deletes [OF assms, of now cs ?st0] obtain evs m where
    tr: "trace (snd (save_try e now cs ?st0)) = trace ?st0 @ evs"
    and d: "filter is_delete evs = take m (map Remote (delete_requests u cs (remote st)))"
    by (auto simp: emit_def)
  obtain res st' where r: "save_try e now cs ?st0 = (res, st')" by (cases "save_try e now cs ?st0")
  then have t': "trace st' = trace st @ Attempt now cs k # evs" using tr by (simp add: emit_def)
  have "\<exists>tail. filter is_delete tail = [] \<and>
     trace (saveDataToSupabase e now cs k st) = trace st' @ tail"
  proof (cases res)
    case None
    then have "trace (saveDataToSupabase e now cs k st) = trace st' @ []"
      using r by (simp add: saveDataToSupabase_def)
    then show ?thesis by (metis filter.simps(1))
  next
    case (Some err)
    show ?thesis
    proof (cases "k < MAX_RETRIES \<and> retryable err")
      case True
      then have "trace (saveDataToSupabase e now cs k st) =
         trace st' @ [SetTimeout (nextHandle st') (BASE_DELAY * 2 ^ k)]"
        using r Some by (simp add: saveDataToSupabase_def setTimeout_def emit_def)
      moreover have "filter is_delete [SetTimeout (nextHandle st') (BASE_DELAY * 2 ^ k)] = []"
        by simp
      ultimately show ?thesis by blast
    next
      case False
      then have "trace (saveDataToSupabase e now cs k st) = trace st' @ []"
        using r Some by (auto simp add: saveDataToSupabase_def)
      then show ?thesis by (metis filter.simps(1))
    qed
  qed
  then obtain tail where tl: "filter is_delete tail = []"
    and tt: "trace (saveDataToSupabase e now cs k st) = trace st' @ tail" by blast
  have "trace (saveDataToSupabase e now cs k st) = trace st @ (Attempt now cs k # evs @ tail)"
    using tt t' by simp
  then have "since st (saveDataToSupabase e now cs k st) = Attempt now cs k # evs @ tail"
    by (rule since_append)
  then show ?thesis using d tl by auto
qed

subsection \<open>Saving the same tree again\<close>

lemma getIsAdminUser_synced [simp]: "getIsAdminUser e (synced u cs db) = getIsAdminUser e db"
  by (simp add: getIsAdminUser_def synced_def split: option.splits)

lemma synced_owner_ids:
  "cr_id ` {x \<in> set (categories_tbl (synced u cs db)). cr_user_id x = u} = desiredCategoryIds cs"
  "pr_id ` {x \<in> set (problems_tbl (synced u cs db)). pr_user_id x = u} = desiredProblemIds cs"
proof -
  show "cr_id ` {x \<in> set (categories_tbl (synced u cs db)). cr_user_id x = u} = desiredCategoryIds cs"
    unfolding synced_def categoriesToDelete_def existingCategories_def
    using sync_inside [where key = cr_id and P = "categoriesPayload u cs" and owner = cr_user_id
        and u = u and tbl = "categories_tbl db", OF categoriesPayload_keys categoriesPayload_owner]
    by simp
  show "pr_id ` {x \<in> set (problems_tbl (synced u cs db)). pr_user_id x = u} = desiredProblemIds cs"
    unfolding synced_def problemsToDelete_def existingProblems_def
    using sync_inside [where key = pr_id and P = "problemsPayload u cs" and owner = pr_user_id
        and u = u and tbl = "problems_tbl db", OF problemsPayload_keys problemsPayload_owner]
    by simp
qed

lemma synced_nothing_to_delete:
  "categoriesToDelete u cs (synced u cs db) = []"
  "problemsToDelete u cs (synced u cs db) = []"
proof -
  show "categoriesToDelete u cs (synced u cs db) = []"
    unfolding categoriesToDelete_def existingCategories_def
    by (rule sync_nothing_left) (rule synced_owner_ids)
  show "problemsToDelete u cs (synced u cs db) = []"
    unfolding problemsToDelete_def existingProblems_def
    by (rule sync_nothing_left) (rule synced_owner_ids)
qed

lemma synced_twice:
  "synced u cs (synced u cs db) = synced u cs db"
proof -
  let ?db1 = "synced u cs db"
  have "upsert cr_id (categoriesPayload u cs) (categories_tbl ?db1) = categories_tbl ?db1"
  proof (rule upsert_again [where tbl = "categories_tbl db"])
    show "set (categories_tbl ?db1) \<subseteq> set (upsert cr_id (categoriesPayload u cs) (categories_tbl db))"
      by (auto simp: synced_def)
    show "\<forall>r\<in>set (categoriesPayload u cs). cr_id r \<in> cr_id ` set (categories_tbl ?db1)"
      unfolding synced_def categoriesToDelete_def existingCategories_def
      using sync_keys_kept [where key = cr_id and P = "categoriesPayload u cs"
          and owner = cr_user_id and u = u and tbl = "categories_tbl db", OF categoriesPayload_keys]
      by simp
  qed
  moreover have "upsert pr_id (problemsPayload u cs) (problems_tbl ?db1) = problems_tbl ?db1"
  proof (rule upsert_again [where tbl = "problems_tbl db"])
    show "set (problems_tbl ?db1) \<subseteq> set (upsert pr_id (problemsPayload u cs) (problems_tbl db))"
      by (auto simp: synced_def)
    show "\<forall>r\<in>set (problemsPayload u cs). pr_id r \<in> pr_id ` set (problems_tbl ?db1)"
      unfolding synced_def problemsToDelete_def existingProblems_def
      using sync_keys_kept [where key = pr_id and P = "problemsPayload u cs"
          and owner = pr_user_id and u = u and tbl = "problems_tbl db", OF problemsPayload_keys]
      by simp
  qed
  ultimately have "synced u cs ?db1 =
      ?db1\<lparr>categories_tbl := categories_tbl ?db1, problems_tbl := problems_tbl ?db1\<rparr>"
    by (simp add: synced_def [of u cs ?db1] synced_nothing_to_delete)
  then show ?thesis by simp
qed

lemma is_upsert_admin_requests:
  "filter is_upsert (map Remote (admin_requests u cs db)) =
     [Remote (UpsertCategories (categoriesPayload u cs)),
      Remote (UpsertProblems (problemsPayload u cs))]"
  by (simp add: admin_requests_def)

section \<open>Facts about the event loop\<close>

subsection \<open>The steps in closed form\<close>

lemma catch_block_eq:
  "catch_block now cs k err st =
     (if k < MAX_RETRIES \<and> retryable err
      then st\<lparr>timers := timers st @ [\<lparr>handle = nextHandle st, due = now + BASE_DELAY * 2 ^ k,
                                     t_categories = cs, t_retryCount = Suc k\<rparr>],
              nextHandle := Suc (nextHandle st),
              trace := trace st @ [SetTimeout (nextHandle st) (BASE_DELAY * 2 ^ k)]\<rparr>
      else st\<lparr>lastSaveTime := 0\<rparr>)"
  by (simp add: catch_block_def setTimeout_def emit_def)

lemma enter_eq:
  "enter now l cs k st =
     st\<lparr>trace := trace st @ [Attempt now cs k],
        inflight := inflight st @
          [\<lparr>ready = now + int l, w_categories = cs, w_retryCount = k, w_stage = Lookup\<rparr>]\<rparr>"
  by (simp add: enter_def emit_def)

lemma session_resolved_eq:
  "session_resolved e now l cs k st =
     (case fails e GetSession of
        Some err \<Rightarrow> catch_block now cs k err (st\<lparr>trace := trace st @ [Remote GetSession]\<rparr>)
      | None \<Rightarrow>
          (case session e of
             None \<Rightarrow> st\<lparr>trace := trace st @ [Remote GetSession]\<rparr>
           | Some u \<Rightarrow>
               st\<lparr>lastSaveTime := now, trace := trace st @ [Remote GetSession],
                  inflight := inflight st @
                    [\<lparr>ready = now + int l, w_categories = cs, w_retryCount = k,
                      w_stage = Body u\<rparr>]\<rparr>))"
  by (simp add: session_resolved_def do_request_unfold split: option.splits)

text \<open>The remote calls of the body of a write by user \<open>u\<close>.\<close>

lemma body_done_shape:
  "\<exists>n db. body_done e now u cs k st =
     (case fst (do_requests e (body_requests e u cs (remote st)) st) of
        None \<Rightarrow> st\<lparr>remote := db,
                  trace := trace st @ map Remote (take n (body_requests e u cs (remote st)))\<rparr>
      | Some err \<Rightarrow>
          catch_block now cs k err
            (st\<lparr>remote := db,
                trace := trace st @ map Remote (take n (body_requests e u cs (remote st)))\<rparr>))"
proof -
  let ?rs = "body_requests e u cs (remote st)"
  from do_requests_shape [of e ?rs st] obtain n db where
    eq: "do_requests e ?rs st =
      (fst (do_requests e ?rs st), st\<lparr>remote := db, trace := trace st @ map Remote (take n ?rs)\<rparr>)"
    by blast
  have "body_done e now u cs k st =
     (case do_requests e ?rs st of (None, st') \<Rightarrow> st' | (Some err, st') \<Rightarrow> catch_block now cs k err st')"
    by (simp add: body_done_def body_requests_def del: do_requests.simps)
  then have "body_done e now u cs k st =
     (case fst (do_requests e ?rs st) of
        None \<Rightarrow> st\<lparr>remote := db, trace := trace st @ map Remote (take n ?rs)\<rparr>
      | Some err \<Rightarrow>
          catch_block now cs k err (st\<lparr>remote := db, trace := trace st @ map Remote (take n ?rs)\<rparr>))"
    by (subst (asm) eq) (simp split: option.splits)
  then show ?thesis by blast
qed

subsection \<open>The event loop terminates\<close>

lemma earliest_mem: "earliest ps = Some p \<Longrightarrow> p \<in> set ps"
  by (induction ps arbitrary: p) (auto split: option.splits if_splits)

lemma next_due_mem: "next_due t st = Some p \<Longrightarrow> p \<in> set (pendings st) \<and> moment p \<le> t"
  using earliest_mem [of "filter (\<lambda>p. moment p \<le> t) (pendings st)" p]
  by (simp add: next_due_def)

lemma timer_weight_filter:
  "sum_list (map timer_weight (filter P tms)) \<le> sum_list (map timer_weight tms)"
  by (induction tms) auto

lemma timer_weight_remove:
  "tm \<in> set tms \<Longrightarrow>
   sum_list (map timer_weight (filter (\<lambda>x. handle x \<noteq> handle tm) tms)) + timer_weight tm
     \<le> sum_list (map timer_weight tms)"
proof (induction tms)
  case Nil
  then show ?case by simp
next
  case (Cons x xs)
  show ?case
  proof (cases "x = tm")
    case True
    then show ?thesis
      using timer_weight_filter [of "\<lambda>x. handle x \<noteq> handle tm" xs] by simp
  next
    case False
    then have "tm \<in> set xs" using Cons.prems by simp
    then show ?thesis using Cons.IH by (cases "handle x = handle tm") simp_all
  qed
qed

lemma weight_fire:
  assumes "tm \<in> set (timers st)"
  shows "weight (fire lat tm st) < weight st"
proof -
  have "sum_list (map timer_weight (filter (\<lambda>x. handle x \<noteq> handle tm) (timers st))) + timer_weight tm
     \<le> sum_list (map timer_weight (timers st))"
    using assms by (rule timer_weight_remove)
  then show ?thesis
    by (simp add: weight_def fire_def enter_eq write_weight_def timer_weight_def)
qed

lemma weight_catch_block:
  "weight (catch_block now cs k err st) \<le> weight st + 3 * (Suc MAX_RETRIES - k)"
  by (auto simp: catch_block_eq weight_def timer_weight_def)

lemma weight_session_resolved:
  "weight (session_resolved e now l cs k st) \<le> weight st + 3 * (Suc MAX_RETRIES - k) + 1"
proof -
  have "weight (catch_block now cs k err (st\<lparr>trace := tr\<rparr>)) \<le> weight st + 3 * (Suc MAX_RETRIES - k)"
    for err tr
    using weight_catch_block [of now cs k err "st\<lparr>trace := tr\<rparr>"] by (simp add: weight_def)
  then show ?thesis
    by (auto simp: session_resolved_eq weight_def write_weight_def split: option.splits
         intro: le_SucI)
qed

lemma weight_body_done:
  "weight (body_done e now u cs k st) \<le> weight st + 3 * (Suc MAX_RETRIES - k)"
proof -
  have c: "weight (catch_block now cs k err (st\<lparr>remote := db, trace := tr\<rparr>))
        \<le> weight st + 3 * (Suc MAX_RETRIES - k)" for err db tr
    using weight_catch_block [of now cs k err "st\<lparr>remote := db, trace := tr\<rparr>"]
    by (simp add: weight_def)
  from body_done_shape [of e now u cs k st] obtain n db where
    "body_done e now u cs k st =
     (case fst (do_requests e (body_requests e u cs (remote st)) st) of
        None \<Rightarrow> st\<lparr>remote := db,
                  trace := trace st @ map Remote (take n (body_requests e u cs (remote st)))\<rparr>
      | Some err \<Rightarrow>
          catch_block now cs k err
            (st\<lparr>remote := db,
                trace := trace st @ map Remote (take n (body_requests e u cs (remote st)))\<rparr>))"
    by blast
  then show ?thesis
    using c by (cases "fst (do_requests e (body_requests e u cs (remote st)) st)")
               (simp_all add: weight_def)
qed

lemma weight_resume:
  assumes "pw \<in> set (inflight st)"
  shows "weight (resume w lat pw st) < weight st"
proof -
  let ?st = "st\<lparr>inflight := remove1 pw (inflight st)\<rparr>"
  have rem: "weight ?st + write_weight pw = weight st"
    using assms sum_list_map_remove1 [of pw "inflight st" write_weight]
    by (simp add: weight_def)
  show ?thesis
  proof (cases "w_stage pw")
    case Lookup
    then have "resume w lat pw st =
       session_resolved (w (ready pw)) (ready pw) (lat (ready pw)) (w_categories pw) (w_retryCount pw) ?st"
      by (simp add: resume_def Let_def)
    moreover have "write_weight pw = 3 * (Suc MAX_RETRIES - w_retryCount pw) + 2"
      using Lookup by (simp add: write_weight_def)
    ultimately show ?thesis
      using weight_session_resolved [of "w (ready pw)" "ready pw" "lat (ready pw)"
               "w_categories pw" "w_retryCount pw" ?st] rem
      by simp
  next
    case (Body u)
    then have "resume w lat pw st =
       body_done (w (ready pw)) (ready pw) u (w_categories pw) (w_retryCount pw) ?st"
      by (simp add: resume_def Let_def)
    moreover have "write_weight pw = 3 * (Suc MAX_RETRIES - w_retryCount pw) + 1"
      using Body by (simp add: write_weight_def)
    ultimately show ?thesis
      using weight_body_done [of "w (ready pw)" "ready pw" u "w_categories pw" "w_retryCount pw" ?st] rem
      by simp
  qed
qed

lemma weight_step:
  assumes "p \<in> set (pendings st)"
  shows "weight (step w lat p st) < weight st"
proof (cases p)
  case (Resuming pw)
  then have "pw \<in> set (inflight st)" using assms by (auto simp: pendings_def)
  then show ?thesis using Resuming weight_resume by simp
next
  case (Firing tm)
  then have "tm \<in> set (timers st)" using assms by (auto simp: pendings_def)
  then show ?thesis using Firing weight_fire by simp
qed

termination advance
proof (relation "measure (\<lambda>(w, lat, t, st). weight st)")
  show "wf (measure (\<lambda>(w, lat, t, st). weight st))" by simp
next
  fix w :: "int \<Rightarrow> env" and lat :: "int \<Rightarrow> nat" and t :: int and st :: state and p :: pending
  assume "next_due t st = Some p"
  then have "p \<in> set (pendings st)" using next_due_mem by blast
  then show "((w, lat, t, step w lat p st), (w, lat, t, st)) \<in> measure (\<lambda>(w, lat, t, st). weight st)"
    using weight_step by simp
qed

declare advance.simps [simp del]

subsection \<open>Running the event loop\<close>

lemma advance_stop: "next_due t st = None \<Longrightarrow> advance w lat t st = st"
  by (subst advance.simps) simp

lemma advance_step:
  "next_due t st = Some p \<Longrightarrow> advance w lat t st = advance w lat t (step w lat p st)"
  by (subst advance.simps) simp

lemma earliest_None: "earliest ps = None \<longleftrightarrow> ps = []"
  by (cases ps) (auto split: option.splits)

lemma next_due_None:
  "next_due t st = None \<longleftrightarrow>
     (\<forall>pw \<in> set (inflight st). t < ready pw) \<and> (\<forall>tm \<in> set (timers st). t < due tm)"
  by (auto simp: next_due_def earliest_None filter_empty_conv pendings_def)

lemma advance_idle: "timers st = [] \<Longrightarrow> inflight st = [] \<Longrightarrow> advance w lat t st = st"
  by (rule advance_stop) (simp add: next_due_None)

lemma advance_not_due:
  "\<forall>pw \<in> set (inflight st). t < ready pw \<Longrightarrow> \<forall>tm \<in> set (timers st). t < due tm \<Longrightarrow>
   advance w lat t st = st"
  by (rule advance_stop) (simp add: next_due_None)

lemma next_due_write:
  assumes "inflight st = [pw]" and "ready pw \<le> t" and "\<forall>tm \<in> set (timers st). t < due tm"
  shows "next_due t st = Some (Resuming pw)"
proof -
  have "filter (\<lambda>p. moment p \<le> t) (map Firing (timers st)) = []"
    using assms(3) by (auto simp: filter_empty_conv)
  then show ?thesis using assms(1,2) by (simp add: next_due_def pendings_def)
qed

lemma next_due_timer:
  assumes "inflight st = []" and "timers st = [tm]" and "due tm \<le> t"
  shows "next_due t st = Some (Firing tm)"
  using assms by (simp add: next_due_def pendings_def)

lemma advance_write:
  assumes "inflight st = [pw]" and "ready pw \<le> t" and "\<forall>tm \<in> set (timers st). t < due tm"
  shows "advance w lat t st = advance w lat t (resume w lat pw st)"
  using advance_step [OF next_due_write [OF assms]] by simp

lemma advance_timer:
  assumes "inflight st = []" and "timers st = [tm]" and "due tm \<le> t"
  shows "advance w lat t st = advance w lat t (fire lat tm st)"
  using advance_step [OF next_due_timer [OF assms]] by simp

lemma resume_Lookup:
  "w_stage pw = Lookup \<Longrightarrow>
   resume w lat pw st =
     session_resolved (w (ready pw)) (ready pw) (lat (ready pw)) (w_categories pw) (w_retryCount pw)
       (st\<lparr>inflight := remove1 pw (inflight st)\<rparr>)"
  by (simp add: resume_def Let_def)

lemma resume_Body:
  "w_stage pw = Body u \<Longrightarrow>
   resume w lat pw st =
     body_done (w (ready pw)) (ready pw) u (w_categories pw) (w_retryCount pw)
       (st\<lparr>inflight := remove1 pw (inflight st)\<rparr>)"
  by (simp add: resume_def Let_def)

subsection \<open>A write run in one piece is a write run in steps\<close>

lemma saveDataToSupabase_steps:
  "saveDataToSupabase e now cs k st =
     (case fails e GetSession of
        Some err \<Rightarrow>
          catch_block now cs k err (st\<lparr>trace := trace st @ [Attempt now cs k, Remote GetSession]\<rparr>)
      | None \<Rightarrow>
          (case session e of
             None \<Rightarrow> st\<lparr>trace := trace st @ [Attempt now cs k, Remote GetSession]\<rparr>
           | Some u \<Rightarrow>
               body_done e now u cs k
                 (st\<lparr>lastSaveTime := now,
                     trace := trace st @ [Attempt now cs k, Remote GetSession]\<rparr>)))"
proof (cases "fails e GetSession")
  case (Some err)
  then show ?thesis
    by (simp add: saveDataToSupabase_def save_try_def do_request_unfold emit_def catch_block_def)
next
  case None
  show ?thesis
  proof (cases "session e")
    case no: None
    then show ?thesis
      using None by (simp add: saveDataToSupabase_def save_try_def do_request_unfold emit_def)
  next
    case (Some u)
    let ?s = "st\<lparr>lastSaveTime := now, trace := trace st @ [Attempt now cs k, Remote GetSession]\<rparr>"
    have o: "st\<lparr>trace := trace st @ [Attempt now cs k, Remote GetSession], lastSaveTime := now\<rparr> = ?s"
      by simp
    have "save_try e now cs (emit (Attempt now cs k) st) =
        (if getIsAdminUser e (remote ?s) then do_requests e (admin_requests u cs (remote ?s)) ?s
         else do_requests e [UpsertProgress (progressPayload u cs)] ?s)"
      using None Some
      by (simp add: save_try_def do_request_unfold emit_def Let_def o del: do_requests.simps)
    then have "saveDataToSupabase e now cs k st = body_done e now u cs k ?s"
      unfolding saveDataToSupabase_def body_done_def catch_block_def by simp
    then show ?thesis using None Some by simp
  qed
qed

lemma catch_block_pending:
  "inflight (catch_block now cs k err st) = inflight st \<and>
   (\<forall>tm \<in> set (timers (catch_block now cs k err st)). tm \<in> set (timers st) \<or> now < due tm)"
  by (auto simp: catch_block_eq BASE_DELAY_def)

lemma body_done_pending:
  "inflight (body_done e now u cs k st) = inflight st \<and>
   (\<forall>tm \<in> set (timers (body_done e now u cs k st)). tm \<in> set (timers st) \<or> now < due tm)"
proof -
  from body_done_shape [of e now u cs k st] obtain n db where
    eq: "body_done e now u cs k st =
     (case fst (do_requests e (body_requests e u cs (remote st)) st) of
        None \<Rightarrow> st\<lparr>remote := db,
                  trace := trace st @ map Remote (take n (body_requests e u cs (remote st)))\<rparr>
      | Some err \<Rightarrow>
          catch_block now cs k err
            (st\<lparr>remote := db,
                trace := trace st @ map Remote (take n (body_requests e u cs (remote st)))\<rparr>))"
    by blast
  show ?thesis
  proof (cases "fst (do_requests e (body_requests e u cs (remote st)) st)")
    case None
    then show ?thesis using eq by simp
  next
    case (Some err)
    then show ?thesis
      using eq catch_block_pending [of now cs k err
        "st\<lparr>remote := db, trace := trace st @ map Remote (take n (body_requests e u cs (remote st)))\<rparr>"]
      by simp
  qed
qed

text \<open>
  With nothing else under way and every awaited call resolving at once, the steps of a
  write entered at \<open>now\<close> are all taken at \<open>now\<close>, and they leave the state that
  \<open>saveDataToSupabase\<close> gives.
\<close>

lemma saveDataToSupabase_in_steps:
  assumes i: "inflight st = []" and t: "\<forall>tm \<in> set (timers st). now < due tm"
  shows "advance (\<lambda>t. e) (\<lambda>t. 0) now (enter now 0 cs k st) = saveDataToSupabase e now cs k st"
proof -
  let ?pw = "\<lparr>ready = now, w_categories = cs, w_retryCount = k, w_stage = Lookup\<rparr>"
  let ?s0 = "enter now 0 cs k st"
  let ?tr = "trace st @ [Attempt now cs k, Remote GetSession]"
  have s0: "?s0 = st\<lparr>trace := trace st @ [Attempt now cs k], inflight := [?pw]\<rparr>"
    using i by (simp add: enter_eq)
  have a0: "advance (\<lambda>t. e) (\<lambda>t. 0) now ?s0 = advance (\<lambda>t. e) (\<lambda>t. 0) now (resume (\<lambda>t. e) (\<lambda>t. 0) ?pw ?s0)"
    by (rule advance_write) (use t in \<open>simp_all add: s0\<close>)
  have r0: "resume (\<lambda>t. e) (\<lambda>t. 0) ?pw ?s0 =
      session_resolved e now 0 cs k (st\<lparr>trace := trace st @ [Attempt now cs k], inflight := []\<rparr>)"
    by (simp add: resume_Lookup s0)
  have fin: "advance (\<lambda>t. e) (\<lambda>t. 0) now s = s"
    if "inflight s = []" and "\<forall>tm \<in> set (timers s). tm \<in> set (timers st) \<or> now < due tm" for s
    by (rule advance_not_due) (use that t in auto)
  show ?thesis
  proof (cases "fails e GetSession")
    case (Some err)
    let ?s1 = "catch_block now cs k err (st\<lparr>trace := ?tr\<rparr>)"
    have r1: "resume (\<lambda>t. e) (\<lambda>t. 0) ?pw ?s0 = ?s1"
      using Some i by (simp add: r0 session_resolved_eq catch_block_eq)
    have "advance (\<lambda>t. e) (\<lambda>t. 0) now ?s1 = ?s1"
      using catch_block_pending [of now cs k err "st\<lparr>trace := ?tr\<rparr>"] i by (intro fin) simp_all
    then show ?thesis using a0 r1 Some by (simp add: saveDataToSupabase_steps)
  next
    case None
    show ?thesis
    proof (cases "session e")
      case no: None
      let ?s1 = "st\<lparr>trace := ?tr\<rparr>"
      have r1: "resume (\<lambda>t. e) (\<lambda>t. 0) ?pw ?s0 = ?s1"
        using None no i by (simp add: r0 session_resolved_eq)
      have "advance (\<lambda>t. e) (\<lambda>t. 0) now ?s1 = ?s1"
        using i by (intro fin) simp_all
      then show ?thesis using a0 r1 None no by (simp add: saveDataToSupabase_steps)
    next
      case (Some u)
      let ?pb = "\<lparr>ready = now, w_categories = cs, w_retryCount = k, w_stage = Body u\<rparr>"
      let ?s1 = "st\<lparr>lastSaveTime := now, trace := ?tr, inflight := [?pb]\<rparr>"
      let ?s2 = "body_done e now u cs k (st\<lparr>lastSaveTime := now, trace := ?tr\<rparr>)"
      have r1: "resume (\<lambda>t. e) (\<lambda>t. 0) ?pw ?s0 = ?s1"
        using None Some i by (simp add: r0 session_resolved_eq)
      have a1: "advance (\<lambda>t. e) (\<lambda>t. 0) now ?s1 = advance (\<lambda>t. e) (\<lambda>t. 0) now (resume (\<lambda>t. e) (\<lambda>t. 0) ?pb ?s1)"
        by (rule advance_write) (use t in simp_all)
      have "st\<lparr>lastSaveTime := now, trace := ?tr, inflight := []\<rparr> = st\<lparr>lastSaveTime := now, trace := ?tr\<rparr>"
        using i by simp
      then have r2: "resume (\<lambda>t. e) (\<lambda>t. 0) ?pb ?s1 = ?s2"
        by (simp add: resume_Body)
      have "advance (\<lambda>t. e) (\<lambda>t. 0) now ?s2 = ?s2"
        using body_done_pending [of e now u cs k "st\<lparr>lastSaveTime := now, trace := ?tr\<rparr>"] i
        by (intro fin) simp_all
      then show ?thesis using a0 r1 a1 r2 None Some by (simp add: saveDataToSupabase_steps)
    qed
  qed
qed

subsection \<open>The call up to its first await\<close>

lemma saveData_start_unfold:
  "saveData_start e now l cs force st =
     (if force \<or> \<not> now - lastSaveTime st < MIN_SAVE_INTERVAL_MS
      then enter now l cs 0 (cleared e cs st)
      else (cleared e cs st)
             \<lparr>saveTimeout := Some (nextHandle st),
              timers := timers (cleared e cs st) @
                 [\<lparr>handle = nextHandle st, due = now + SAVE_DEBOUNCE_MS,
                   t_categories = cs, t_retryCount = 0\<rparr>],
              nextHandle := Suc (nextHandle st),
              trace := trace st @ save_prefix e cs st @ [SetTimeout (nextHandle st) SAVE_DEBOUNCE_MS]\<rparr>)"
proof -
  have l: "lastSaveTime (cleared e cs st) = lastSaveTime st"
    and n: "nextHandle (cleared e cs st) = nextHandle st"
    and t: "trace (cleared e cs st) = trace st @ save_prefix e cs st"
    by (simp_all add: cleared_eq)
  have "saveData_start e now l cs force st =
     (if force then enter now l cs 0 (cleared e cs st)
      else if now - lastSaveTime (cleared e cs st) < MIN_SAVE_INTERVAL_MS
      then (case setTimeout now SAVE_DEBOUNCE_MS cs 0 (cleared e cs st) of
                 (h, st3) \<Rightarrow> st3\<lparr>saveTimeout := Some h\<rparr>)
      else enter now l cs 0 (cleared e cs st))"
    by (simp add: saveData_start_def cleared_def Let_def)
  then show ?thesis
    using l n t by (simp add: setTimeout_def emit_def)
qed

text \<open>
  With nothing else under way and every awaited call resolving at once, a call of
  \<^verbatim>\<open>saveData\<close> followed by the steps of its write leaves the state that \<open>saveData\<close>
  gives.
\<close>

lemma saveData_in_steps:
  assumes i: "inflight st = []" and t: "\<forall>tm \<in> set (timers st). now < due tm"
  shows "advance (\<lambda>t. e) (\<lambda>t. 0) now (saveData_start e now 0 cs force st) = saveData e now cs force st"
proof -
  let ?c = "cleared e cs st"
  have ci: "inflight ?c = []" using i by (simp add: cleared_eq)
  have ct: "\<forall>tm \<in> set (timers ?c). now < due tm"
    using t by (cases "saveTimeout st") (simp_all add: cleared_eq)
  show ?thesis
  proof (cases "force \<or> \<not> now - lastSaveTime st < MIN_SAVE_INTERVAL_MS")
    case True
    then show ?thesis
      using saveDataToSupabase_in_steps [OF ci ct, of e cs 0]
      by (simp add: saveData_start_unfold saveData_unfold)
  next
    case False
    let ?s = "saveData_start e now 0 cs force st"
    have eq: "?s = saveData e now cs force st"
      using False by (simp add: saveData_start_unfold saveData_unfold)
    have "inflight ?s = []" using False ci by (simp add: saveData_start_unfold)
    moreover have "\<forall>tm \<in> set (timers ?s). now < due tm"
      using False ct by (simp add: saveData_start_unfold SAVE_DEBOUNCE_MS_def)
    ultimately have "advance (\<lambda>t. e) (\<lambda>t. 0) now ?s = ?s" by (intro advance_not_due) simp_all
    then show ?thesis using eq by simp
  qed
qed

subsection \<open>The timers stay in order\<close>

lemma timers_ok_idle: "timers_ok (idle db)"
  by (simp add: timers_ok_def idle_def)

lemma timers_ok_cong:
  "timers s = timers st \<Longrightarrow> nextHandle s = nextHandle st \<Longrightarrow> saveTimeout s = saveTimeout st \<Longrightarrow>
   timers_ok s = timers_ok st"
  by (simp add: timers_ok_def split: option.splits)

lemma timers_ok_catch_block:
  assumes "timers_ok st"
  shows "timers_ok (catch_block now cs k err st)"
proof (cases "k < MAX_RETRIES \<and> retryable err")
  case True
  have "saveTimeout st \<noteq> Some (nextHandle st)"
    using assms by (auto simp: timers_ok_def split: option.splits)
  moreover have "nextHandle st \<notin> handle ` set (timers st)"
    using assms by (auto simp: timers_ok_def list_all_iff)
  moreover have "list_all (\<lambda>tm. handle tm < Suc (nextHandle st)) (timers st)"
    using assms by (auto simp: timers_ok_def list_all_iff)
  ultimately show ?thesis
    using assms True by (auto simp: catch_block_eq timers_ok_def split: option.splits)
next
  case False
  then have "catch_block now cs k err st = st\<lparr>lastSaveTime := 0\<rparr>"
    by (auto simp: catch_block_eq)
  then show ?thesis using assms timers_ok_cong [of "st\<lparr>lastSaveTime := 0\<rparr>" st] by simp
qed

lemma timers_ok_enter: "timers_ok st \<Longrightarrow> timers_ok (enter now l cs k st)"
  using timers_ok_cong [of "enter now l cs k st" st] by (simp add: enter_eq)

lemma timers_ok_session_resolved:
  assumes "timers_ok st"
  shows "timers_ok (session_resolved e now l cs k st)"
proof -
  have a: "timers_ok (st\<lparr>trace := tr\<rparr>)" for tr
    using assms timers_ok_cong [of "st\<lparr>trace := tr\<rparr>" st] by simp
  have b: "timers_ok (st\<lparr>lastSaveTime := x, trace := tr, inflight := fl\<rparr>)" for x tr fl
    using assms timers_ok_cong [of "st\<lparr>lastSaveTime := x, trace := tr, inflight := fl\<rparr>" st] by simp
  show ?thesis
    using a b timers_ok_catch_block [OF a]
    by (simp add: session_resolved_eq split: option.splits)
qed

lemma timers_ok_body_done:
  assumes "timers_ok st"
  shows "timers_ok (body_done e now u cs k st)"
proof -
  have a: "timers_ok (st\<lparr>remote := db, trace := tr\<rparr>)" for db tr
    using assms timers_ok_cong [of "st\<lparr>remote := db, trace := tr\<rparr>" st] by simp
  from body_done_shape [of e now u cs k st] obtain n db where
    "body_done e now u cs k st =
     (case fst (do_requests e (body_requests e u cs (remote st)) st) of
        None \<Rightarrow> st\<lparr>remote := db,
                  trace := trace st @ map Remote (take n (body_requests e u cs (remote st)))\<rparr>
      | Some err \<Rightarrow>
          catch_block now cs k err
            (st\<lparr>remote := db,
                trace := trace st @ map Remote (take n (body_requests e u cs (remote st)))\<rparr>))"
    by blast
  then show ?thesis
    using a timers_ok_catch_block [OF a]
    by (cases "fst (do_requests e (body_requests e u cs (remote st)) st)") simp_all
qed

lemma timers_ok_remove:
  "timers_ok st \<Longrightarrow> timers_ok (st\<lparr>timers := filter P (timers st)\<rparr>)"
  by (auto simp: timers_ok_def list_all_iff distinct_map_filter split: option.splits)

lemma timers_ok_fire: "timers_ok st \<Longrightarrow> timers_ok (fire lat tm st)"
  unfolding fire_def by (intro timers_ok_enter timers_ok_remove)

lemma timers_ok_resume:
  assumes "timers_ok st"
  shows "timers_ok (resume w lat pw st)"
proof -
  have a: "timers_ok (st\<lparr>inflight := remove1 pw (inflight st)\<rparr>)"
    using assms timers_ok_cong [of "st\<lparr>inflight := remove1 pw (inflight st)\<rparr>" st] by simp
  show ?thesis
    using timers_ok_session_resolved [OF a] timers_ok_body_done [OF a]
    by (cases "w_stage pw") (simp_all add: resume_Lookup resume_Body)
qed

lemma timers_ok_step: "timers_ok st \<Longrightarrow> timers_ok (step w lat p st)"
  by (cases p) (simp_all add: timers_ok_resume timers_ok_fire)

lemma timers_ok_advance: "timers_ok st \<Longrightarrow> timers_ok (advance w lat t st)"
proof (induction w lat t st rule: advance.induct)
  case (1 w lat t st)
  show ?case
  proof (cases "next_due t st")
    case None
    then show ?thesis using "1.prems" by (simp add: advance_stop)
  next
    case (Some p)
    then show ?thesis using "1.IH" [OF Some] "1.prems" timers_ok_step
      by (simp add: advance_step)
  qed
qed

text \<open>
  The first two statements of \<^verbatim>\<open>saveData\<close> leave no debounced write pending, and
  they leave every pending retry alone.
\<close>

lemma debounced_cleared:
  assumes "timers_ok st"
  shows "debounced (cleared e cs st) = []"
proof (cases "saveTimeout st")
  case None
  then have "list_all (\<lambda>tm. t_retryCount tm \<noteq> 0) (timers st)"
    using assms by (simp add: timers_ok_def)
  then show ?thesis using None
    by (auto simp: debounced_def cleared_eq filter_empty_conv list_all_iff)
next
  case (Some h)
  then have "list_all (\<lambda>tm. (t_retryCount tm = 0) = (h = handle tm)) (timers st)"
    using assms by (simp add: timers_ok_def)
  then show ?thesis using Some
    by (auto simp: debounced_def cleared_eq filter_empty_conv list_all_iff)
qed

lemma retries_cleared:
  assumes "timers_ok st"
  shows "retries (cleared e cs st) = retries st"
proof (cases "saveTimeout st")
  case None
  then show ?thesis by (simp add: retries_def cleared_eq)
next
  case (Some h)
  then have "list_all (\<lambda>tm. (t_retryCount tm = 0) = (h = handle tm)) (timers st)"
    using assms by (simp add: timers_ok_def)
  then have "filter (\<lambda>tm. handle tm \<noteq> h \<and> t_retryCount tm \<noteq> 0) (timers st) =
      filter (\<lambda>tm. t_retryCount tm \<noteq> 0) (timers st)"
    by (intro filter_cong refl) (auto simp: list_all_iff)
  then show ?thesis using Some by (simp add: retries_def cleared_eq)
qed

lemma timers_ok_cleared:
  assumes "timers_ok st"
  shows "timers_ok (cleared e cs st)"
proof -
  have "cleared e cs st =
     (st\<lparr>timers := filter (\<lambda>tm. Some (handle tm) \<noteq> saveTimeout st) (timers st)\<rparr>)
       \<lparr>localStorage := (if setItem_throws e then localStorage st else Snapshot cs),
        trace := trace st @ save_prefix e cs st\<rparr>"
    by (cases "saveTimeout st") (auto simp: cleared_eq intro: filter_cong)
  then show ?thesis
    using timers_ok_remove [OF assms, of "\<lambda>tm. Some (handle tm) \<noteq> saveTimeout st"]
      timers_ok_cong [of "cleared e cs st"
        "st\<lparr>timers := filter (\<lambda>tm. Some (handle tm) \<noteq> saveTimeout st) (timers st)\<rparr>"]
    by simp
qed

lemma timers_ok_saveData_start:
  assumes "timers_ok st"
  shows "timers_ok (saveData_start e now l cs force st)"
proof (cases "force \<or> \<not> now - lastSaveTime st < MIN_SAVE_INTERVAL_MS")
  case True
  then show ?thesis
    using timers_ok_enter [OF timers_ok_cleared [OF assms]] by (simp add: saveData_start_unfold)
next
  case False
  let ?c = "cleared e cs st"
  have ok: "timers_ok ?c" using assms by (rule timers_ok_cleared)
  have n: "nextHandle ?c = nextHandle st" by (simp add: cleared_eq)
  have d: "list_all (\<lambda>tm. t_retryCount tm \<noteq> 0) (timers ?c)"
    using debounced_cleared [OF assms, of e cs]
    by (auto simp: debounced_def filter_empty_conv list_all_iff)
  have "list_all (\<lambda>tm. handle tm < nextHandle st) (timers ?c)"
    and "distinct (map handle (timers ?c))"
    using ok n by (simp_all add: timers_ok_def)
  then show ?thesis
    using False d n by (auto simp: saveData_start_unfold timers_ok_def list_all_iff)
qed

lemma timers_ok_call: "timers_ok st \<Longrightarrow> timers_ok (call w lat t cs force st)"
  unfolding call_def by (intro timers_ok_saveData_start timers_ok_advance)

lemma timers_ok_run: "timers_ok st \<Longrightarrow> timers_ok (run w lat calls st)"
proof (induction calls arbitrary: st)
  case Nil
  then show ?case by (simp add: run_def)
next
  case (Cons c calls)
  obtain t cs f where c: "c = (t, cs, f)" by (cases c) auto
  have "run w lat (c # calls) st = run w lat calls (call w lat t cs f st)"
    by (simp add: run_def c)
  then show ?case using Cons.IH [OF timers_ok_call [OF Cons.prems]] by simp
qed

text \<open>In a state whose timers are in order at most one debounced write is pending.\<close>

lemma timers_ok_one:
  assumes "timers_ok st"
  shows "length (debounced st) \<le> 1"
proof (cases "saveTimeout st")
  case None
  then have "list_all (\<lambda>tm. t_retryCount tm \<noteq> 0) (timers st)"
    using assms by (simp add: timers_ok_def)
  then have "debounced st = []"
    by (auto simp: debounced_def filter_empty_conv list_all_iff)
  then show ?thesis by simp
next
  case (Some h)
  have d: "distinct (map handle (debounced st))"
    using assms by (simp add: timers_ok_def debounced_def distinct_map_filter)
  have "\<forall>tm \<in> set (debounced st). handle tm = h"
    using assms Some by (auto simp: timers_ok_def debounced_def list_all_iff)
  then have "set (map handle (debounced st)) \<subseteq> {h}" by auto
  then have "card (set (map handle (debounced st))) \<le> 1"
    by (metis card_mono card_1_singleton_iff finite.emptyI finite.insertI le_refl
          One_nat_def card.empty card.insert empty_iff)
  then show ?thesis using distinct_card [OF d] by simp
qed

lemma timers_ok_held:
  assumes "timers_ok st" and "tm \<in> set (debounced st)"
  shows "saveTimeout st = Some (handle tm)"
  using assms by (auto simp: timers_ok_def debounced_def list_all_iff)

subsection \<open>What a step adds\<close>

lemma writes_requests: "writes (map Remote rs) = filter is_write rs"
  by (induction rs) simp_all

lemma attempts_save_prefix [simp]: "filter is_attempt (save_prefix e cs st) = []"
  by (simp add: save_prefix_def split: option.splits)

lemma catch_block_effect:
  "\<exists>evs. trace (catch_block now cs k err st) = trace st @ evs \<and>
     filter is_attempt evs = [] \<and> writes evs = [] \<and>
     inflight (catch_block now cs k err st) = inflight st \<and>
     (\<forall>tm \<in> set (timers (catch_block now cs k err st)).
         tm \<in> set (timers st) \<or> now + BASE_DELAY \<le> due tm)"
proof (cases "k < MAX_RETRIES \<and> retryable err")
  case True
  have "(1::int) \<le> 2 ^ k" by simp
  then have "BASE_DELAY \<le> BASE_DELAY * 2 ^ k" by (simp add: BASE_DELAY_def)
  then show ?thesis
    using True
    by (intro exI [of _ "[SetTimeout (nextHandle st) (BASE_DELAY * 2 ^ k)]"])
       (auto simp: catch_block_eq)
next
  case False
  then show ?thesis by (intro exI [of _ "[]"]) (auto simp: catch_block_eq)
qed

text \<open>
  A write that goes on enters nothing: it adds no attempt; a timer it sets is due at
  least \<^verbatim>\<open>BASE_DELAY\<close> later, and a write it leaves in flight goes on no earlier.
\<close>

lemma resume_effect:
  "\<exists>evs. trace (resume w lat pw st) = trace st @ evs \<and> filter is_attempt evs = [] \<and>
     (\<forall>tm \<in> set (timers (resume w lat pw st)).
         tm \<in> set (timers st) \<or> ready pw + BASE_DELAY \<le> due tm) \<and>
     (\<forall>q \<in> set (inflight (resume w lat pw st)). q \<in> set (inflight st) \<or> ready pw \<le> ready q)"
proof -
  let ?st = "st\<lparr>inflight := remove1 pw (inflight st)\<rparr>"
  let ?now = "ready pw"
  let ?cs = "w_categories pw"
  let ?k = "w_retryCount pw"
  have sub: "\<And>q. q \<in> set (inflight ?st) \<Longrightarrow> q \<in> set (inflight st)"
    using notin_set_remove1 by fastforce
  have catch: "\<exists>evs. trace (catch_block ?now ?cs ?k err (?st\<lparr>remote := db, trace := trace st @ pre\<rparr>)) =
        trace st @ evs \<and> filter is_attempt evs = [] \<and>
     (\<forall>tm \<in> set (timers (catch_block ?now ?cs ?k err (?st\<lparr>remote := db, trace := trace st @ pre\<rparr>))).
         tm \<in> set (timers st) \<or> ?now + BASE_DELAY \<le> due tm) \<and>
     (\<forall>q \<in> set (inflight (catch_block ?now ?cs ?k err (?st\<lparr>remote := db, trace := trace st @ pre\<rparr>))).
         q \<in> set (inflight st) \<or> ?now \<le> ready q)"
    if "filter is_attempt pre = []" for err db pre
  proof -
    let ?s = "?st\<lparr>remote := db, trace := trace st @ pre\<rparr>"
    from catch_block_effect [of ?now ?cs ?k err ?s] obtain evs where
      e: "trace (catch_block ?now ?cs ?k err ?s) = trace ?s @ evs" "filter is_attempt evs = []"
        "inflight (catch_block ?now ?cs ?k err ?s) = inflight ?s"
        "\<forall>tm \<in> set (timers (catch_block ?now ?cs ?k err ?s)).
            tm \<in> set (timers ?s) \<or> ?now + BASE_DELAY \<le> due tm"
      by blast
    have "trace (catch_block ?now ?cs ?k err ?s) = trace st @ (pre @ evs)" using e(1) by simp
    moreover have "filter is_attempt (pre @ evs) = []" using e(2) that by simp
    moreover have "\<forall>tm \<in> set (timers (catch_block ?now ?cs ?k err ?s)).
         tm \<in> set (timers st) \<or> ?now + BASE_DELAY \<le> due tm"
      using e(4) by simp
    moreover have "\<forall>q \<in> set (inflight (catch_block ?now ?cs ?k err ?s)).
         q \<in> set (inflight st) \<or> ?now \<le> ready q"
      using e(3) sub by simp
    ultimately show ?thesis by blast
  qed
  show ?thesis
  proof (cases "w_stage pw")
    case Lookup
    have r: "resume w lat pw st = session_resolved (w ?now) ?now (lat ?now) ?cs ?k ?st"
      using Lookup by (rule resume_Lookup)
    show ?thesis
    proof (cases "fails (w ?now) GetSession")
      case (Some err)
      have "?st\<lparr>remote := remote st, trace := trace st @ [Remote GetSession]\<rparr> =
          ?st\<lparr>trace := trace st @ [Remote GetSession]\<rparr>"
        by simp
      then have "resume w lat pw st =
          catch_block ?now ?cs ?k err (?st\<lparr>remote := remote st, trace := trace st @ [Remote GetSession]\<rparr>)"
        using Some by (simp add: r session_resolved_eq)
      then show ?thesis using catch [of "[Remote GetSession]" err "remote st"] by simp
    next
      case None
      show ?thesis
      proof (cases "session (w ?now)")
        case no: None
        then have "resume w lat pw st = ?st\<lparr>trace := trace st @ [Remote GetSession]\<rparr>"
          using None by (simp add: r session_resolved_eq)
        then show ?thesis using sub by (intro exI [of _ "[Remote GetSession]"]) simp
      next
        case (Some u)
        then have "resume w lat pw st =
           ?st\<lparr>lastSaveTime := ?now, trace := trace st @ [Remote GetSession],
               inflight := inflight ?st @
                 [\<lparr>ready = ?now + int (lat ?now), w_categories = ?cs, w_retryCount = ?k,
                   w_stage = Body u\<rparr>]\<rparr>"
          using None by (simp add: r session_resolved_eq)
        then show ?thesis using sub by (intro exI [of _ "[Remote GetSession]"]) auto
      qed
    qed
  next
    case (Body u)
    have r: "resume w lat pw st = body_done (w ?now) ?now u ?cs ?k ?st"
      using Body by (rule resume_Body)
    let ?rs = "body_requests (w ?now) u ?cs (remote ?st)"
    from body_done_shape [of "w ?now" ?now u ?cs ?k ?st] obtain n db where
      eq: "body_done (w ?now) ?now u ?cs ?k ?st =
       (case fst (do_requests (w ?now) ?rs ?st) of
          None \<Rightarrow> ?st\<lparr>remote := db, trace := trace ?st @ map Remote (take n ?rs)\<rparr>
        | Some err \<Rightarrow>
            catch_block ?now ?cs ?k err
              (?st\<lparr>remote := db, trace := trace ?st @ map Remote (take n ?rs)\<rparr>))"
      by blast
    show ?thesis
    proof (cases "fst (do_requests (w ?now) ?rs ?st)")
      case None
      then have "resume w lat pw st = ?st\<lparr>remote := db, trace := trace st @ map Remote (take n ?rs)\<rparr>"
        using eq r by simp
      then show ?thesis using sub by (intro exI [of _ "map Remote (take n ?rs)"]) simp
    next
      case (Some err)
      then have "resume w lat pw st =
          catch_block ?now ?cs ?k err (?st\<lparr>remote := db, trace := trace st @ map Remote (take n ?rs)\<rparr>)"
        using eq r by simp
      then show ?thesis using catch [of "map Remote (take n ?rs)" err db] by simp
    qed
  qed
qed

text \<open>
  While no timer is due and every write in flight began less than \<^verbatim>\<open>BASE_DELAY\<close>
  ago, letting the clock run enters no write.
\<close>

lemma advance_enters_nothing:
  "\<forall>tm \<in> set (timers st). T < due tm \<Longrightarrow>
   \<forall>pw \<in> set (inflight st). T < ready pw + BASE_DELAY \<Longrightarrow>
   \<exists>evs. trace (advance w lat T st) = trace st @ evs \<and> filter is_attempt evs = []"
proof (induction w lat T st rule: advance.induct)
  case (1 w lat T st)
  show ?case
  proof (cases "next_due T st")
    case None
    then have "advance w lat T st = st" by (rule advance_stop)
    then show ?thesis by simp
  next
    case (Some p)
    then have mem: "p \<in> set (pendings st)" and le: "moment p \<le> T"
      using next_due_mem by blast+
    have "\<forall>tm. p \<noteq> Firing tm"
    proof (intro allI notI)
      fix tm assume "p = Firing tm"
      then have "tm \<in> set (timers st)" "due tm \<le> T" using mem le by (auto simp: pendings_def)
      then show False using "1.prems"(1) by auto
    qed
    then obtain pw where p: "p = Resuming pw" by (cases p) auto
    then have pw: "pw \<in> set (inflight st)" "ready pw \<le> T" "T < ready pw + BASE_DELAY"
      using mem le "1.prems"(2) by (auto simp: pendings_def)
    let ?s = "resume w lat pw st"
    from resume_effect [of w lat pw st] obtain evs where
      tr: "trace ?s = trace st @ evs" and at: "filter is_attempt evs = []"
      and tms: "\<forall>tm \<in> set (timers ?s). tm \<in> set (timers st) \<or> ready pw + BASE_DELAY \<le> due tm"
      and fl: "\<forall>q \<in> set (inflight ?s). q \<in> set (inflight st) \<or> ready pw \<le> ready q"
      by blast
    have a: "\<forall>tm \<in> set (timers ?s). T < due tm"
      using tms "1.prems"(1) pw(3) by fastforce
    have b: "\<forall>q \<in> set (inflight ?s). T < ready q + BASE_DELAY"
      using fl "1.prems"(2) pw(3) by fastforce
    have s: "step w lat p st = ?s" using p by simp
    from "1.IH" [OF Some] a b s obtain evs' where
      "trace (advance w lat T ?s) = trace ?s @ evs'" and "filter is_attempt evs' = []"
      by auto
    then have "trace (advance w lat T st) = trace st @ (evs @ evs')"
      and "filter is_attempt (evs @ evs') = []"
      using tr at advance_step [OF Some, of w lat] s by simp_all
    then show ?thesis by blast
  qed
qed

subsection \<open>A burst of debounced calls\<close>

lemma debounced_call_first:
  assumes "timers st = []" and "inflight st = []"
    and "t - lastSaveTime st < MIN_SAVE_INTERVAL_MS"
  shows "waiting st t cs (call w lat t cs False st)"
proof -
  have a: "advance w lat t st = st" using assms(1,2) by (rule advance_idle)
  have c: "timers (cleared (w t) cs st) = []"
    using assms(1) by (simp add: cleared_eq split: option.splits)
  have "call w lat t cs False st =
      (cleared (w t) cs st)
             \<lparr>saveTimeout := Some (nextHandle st),
              timers := timers (cleared (w t) cs st) @
                 [\<lparr>handle = nextHandle st, due = t + SAVE_DEBOUNCE_MS,
                   t_categories = cs, t_retryCount = 0\<rparr>],
              nextHandle := Suc (nextHandle st),
              trace := trace st @ save_prefix (w t) cs st @ [SetTimeout (nextHandle st) SAVE_DEBOUNCE_MS]\<rparr>"
    using assms(3) by (simp add: call_def a saveData_start_unfold)
  then show ?thesis
    unfolding waiting_def using c assms(2)
    by (intro exI [of _ "nextHandle st"]
              exI [of _ "save_prefix (w t) cs st @ [SetTimeout (nextHandle st) SAVE_DEBOUNCE_MS]"])
       (simp add: cleared_eq)
qed

lemma debounced_call_next:
  assumes "waiting st t cs s" and "t \<le> t'" and "t' - t < SAVE_DEBOUNCE_MS"
    and "t' - lastSaveTime st < MIN_SAVE_INTERVAL_MS"
  shows "waiting st t' cs' (call w lat t' cs' False s)"
proof -
  from assms(1) obtain h evs where
    tm: "timers s = [\<lparr>handle = h, due = t + SAVE_DEBOUNCE_MS, t_categories = cs, t_retryCount = 0\<rparr>]"
    and fl: "inflight s = []"
    and sv: "saveTimeout s = Some h" and ls: "lastSaveTime s = lastSaveTime st"
    and rm: "remote s = remote st"
    and tr: "trace s = trace st @ evs" and at: "filter is_attempt evs = []" and wr: "writes evs = []"
    unfolding waiting_def by blast
  have a: "advance w lat t' s = s"
    using tm fl assms(3) by (intro advance_not_due) simp_all
  have c: "timers (cleared (w t') cs' s) = []"
    using tm sv by (simp add: cleared_eq)
  have "call w lat t' cs' False s =
      (cleared (w t') cs' s)
             \<lparr>saveTimeout := Some (nextHandle s),
              timers := timers (cleared (w t') cs' s) @
                 [\<lparr>handle = nextHandle s, due = t' + SAVE_DEBOUNCE_MS,
                   t_categories = cs', t_retryCount = 0\<rparr>],
              nextHandle := Suc (nextHandle s),
              trace := trace s @ save_prefix (w t') cs' s @ [SetTimeout (nextHandle s) SAVE_DEBOUNCE_MS]\<rparr>"
    using assms(4) ls by (simp add: call_def a saveData_start_unfold)
  then show ?thesis
    unfolding waiting_def using c ls tr at wr fl rm
    by (intro exI [of _ "nextHandle s"]
              exI [of _ "evs @ save_prefix (w t') cs' s @ [SetTimeout (nextHandle s) SAVE_DEBOUNCE_MS]"])
       (simp add: cleared_eq)
qed

lemma burst_waiting:
  assumes "waiting st t cs s" and "rapid ((t, cs, False) # calls)"
    and "\<forall>c \<in> set calls. \<not> snd (snd c) \<and> fst c - lastSaveTime st < MIN_SAVE_INTERVAL_MS"
  shows "waiting st (fst (last ((t, cs, False) # calls)))
           (fst (snd (last ((t, cs, False) # calls)))) (run w lat calls s)"
  using assms
proof (induction calls arbitrary: t cs s)
  case Nil
  then show ?case by (simp add: run_def)
next
  case (Cons c calls)
  obtain t' cs' f where c: "c = (t', cs', f)" by (cases c) auto
  have f: "f = False" using Cons.prems(3) c by simp
  have w: "waiting st t' cs' (call w lat t' cs' False s)"
    using Cons.prems c by (intro debounced_call_next [of st t cs s]) simp_all
  have "waiting st (fst (last ((t', cs', False) # calls)))
           (fst (snd (last ((t', cs', False) # calls)))) (run w lat calls (call w lat t' cs' False s))"
    using Cons.prems c f by (intro Cons.IH [OF w]) simp_all
  then show ?case using c f by (simp add: run_def)
qed

lemma burst_ends_waiting:
  assumes "calls \<noteq> []" and "rapid calls"
    and "\<forall>c \<in> set calls. \<not> snd (snd c) \<and> fst c - lastSaveTime st < MIN_SAVE_INTERVAL_MS"
    and "timers st = []" and "inflight st = []"
  shows "waiting st (fst (last calls)) (fst (snd (last calls))) (run w lat calls st)"
proof -
  obtain c rest where calls: "calls = c # rest" using assms(1) by (cases calls) auto
  obtain t cs f where c: "c = (t, cs, f)" by (cases c) auto
  have f: "f = False" using assms(3) calls c by simp
  have t: "t - lastSaveTime st < MIN_SAVE_INTERVAL_MS" using assms(3) calls c by simp
  have w1: "waiting st t cs (call w lat t cs False st)"
    using assms(4,5) t by (rule debounced_call_first)
  have r: "rapid ((t, cs, False) # rest)" using assms(2) calls c f by simp
  have a: "\<forall>c \<in> set rest. \<not> snd (snd c) \<and> fst c - lastSaveTime st < MIN_SAVE_INTERVAL_MS"
    using assms(3) calls by simp
  have "waiting st (fst (last ((t, cs, False) # rest))) (fst (snd (last ((t, cs, False) # rest))))
          (run w lat rest (call w lat t cs False st))"
    using w1 r a by (rule burst_waiting)
  moreover have "run w lat calls st = run w lat rest (call w lat t cs False st)"
    using calls c f by (simp add: run_def)
  ultimately show ?thesis using calls c f by simp
qed

subsection \<open>A write whose calls all succeed\<close>

lemma body_done_ok:
  assumes "\<forall>r. fails e r = None"
  shows "body_done e now u cs k st =
     st\<lparr>remote := fold apply_request (body_requests e u cs (remote st)) (remote st),
        trace := trace st @ map Remote (body_requests e u cs (remote st))\<rparr>"
proof -
  let ?rs = "body_requests e u cs (remote st)"
  have "\<forall>r \<in> set ?rs. fails e r = None" using assms by simp
  then have ok: "do_requests e ?rs st =
     (None, st\<lparr>remote := fold apply_request ?rs (remote st), trace := trace st @ map Remote ?rs\<rparr>)"
    by (rule do_requests_ok)
  have "body_done e now u cs k st =
     (case do_requests e ?rs st of (None, st') \<Rightarrow> st' | (Some err, st') \<Rightarrow> catch_block now cs k err st')"
    by (simp add: body_done_def body_requests_def del: do_requests.simps)
  then show ?thesis by (simp add: ok)
qed

lemma writes_body_requests:
  "filter is_write (body_requests e u cs db) =
     (if getIsAdminUser e db
      then [UpsertCategories (categoriesPayload u cs), UpsertProblems (problemsPayload u cs)]
           @ delete_requests u cs db
      else [UpsertProgress (progressPayload u cs)])"
  by (simp add: body_requests_def admin_requests_def delete_requests_def)

text \<open>
  A write at its session lookup with nothing else pending, in a world where the lookup
  finds the session of \<open>u\<close> and every call of the body succeeds: once the body has
  ended, the calls of the body have been made, in order, and nothing is pending.
\<close>

lemma write_goes_through:
  assumes tm: "timers s = []"
    and fl: "inflight s = [\<lparr>ready = Rs, w_categories = cs, w_retryCount = k, w_stage = Lookup\<rparr>]"
    and oks: "fails (w Rs) GetSession = None" and u: "session (w Rs) = Some u"
    and Rb: "Rb = Rs + int (lat Rs)"
    and okb: "\<forall>r. fails (w Rb) r = None"
    and T: "Rb \<le> T"
  shows "advance w lat T s =
     s\<lparr>lastSaveTime := Rs,
       remote := fold apply_request (body_requests (w Rb) u cs (remote s)) (remote s),
       trace := trace s @ Remote GetSession # map Remote (body_requests (w Rb) u cs (remote s)),
       inflight := []\<rparr>"
proof -
  let ?pw = "\<lparr>ready = Rs, w_categories = cs, w_retryCount = k, w_stage = Lookup\<rparr>"
  let ?pb = "\<lparr>ready = Rb, w_categories = cs, w_retryCount = k, w_stage = Body u\<rparr>"
  let ?s1 = "s\<lparr>lastSaveTime := Rs, trace := trace s @ [Remote GetSession], inflight := [?pb]\<rparr>"
  let ?rs = "body_requests (w Rb) u cs (remote s)"
  let ?s2 = "s\<lparr>lastSaveTime := Rs, remote := fold apply_request ?rs (remote s),
       trace := trace s @ Remote GetSession # map Remote ?rs, inflight := []\<rparr>"
  have le: "Rs \<le> T" using Rb T by simp
  have a1: "advance w lat T s = advance w lat T (resume w lat ?pw s)"
    by (rule advance_write) (use fl tm le in simp_all)
  have r1: "resume w lat ?pw s = ?s1"
    using fl oks u Rb by (simp add: resume_Lookup session_resolved_eq)
  have a2: "advance w lat T ?s1 = advance w lat T (resume w lat ?pb ?s1)"
    by (rule advance_write) (use tm T in simp_all)
  have "resume w lat ?pb ?s1 =
     body_done (w Rb) Rb u cs k (s\<lparr>lastSaveTime := Rs, trace := trace s @ [Remote GetSession], inflight := []\<rparr>)"
    by (simp add: resume_Body)
  then have r2: "resume w lat ?pb ?s1 = ?s2"
    using body_done_ok [OF okb] by simp
  have a3: "advance w lat T ?s2 = ?s2"
    by (rule advance_idle) (use tm in simp_all)
  show ?thesis using a1 r1 a2 r2 a3 by simp
qed

subsection \<open>The write that ends a burst\<close>

lemma waiting_fires:
  assumes "waiting st t cs s" and "t + SAVE_DEBOUNCE_MS \<le> T"
  shows "\<exists>evs. filter is_attempt evs = [] \<and> writes evs = [] \<and>
     advance w lat T s =
       advance w lat T
         (s\<lparr>timers := [],
            trace := trace st @ evs @ [Attempt (t + SAVE_DEBOUNCE_MS) cs 0],
            inflight := [\<lparr>ready = t + SAVE_DEBOUNCE_MS + int (lat (t + SAVE_DEBOUNCE_MS)),
                          w_categories = cs, w_retryCount = 0, w_stage = Lookup\<rparr>]\<rparr>)"
proof -
  from assms(1) obtain h evs where
    tm: "timers s = [\<lparr>handle = h, due = t + SAVE_DEBOUNCE_MS, t_categories = cs, t_retryCount = 0\<rparr>]"
    and fl: "inflight s = []"
    and tr: "trace s = trace st @ evs" and at: "filter is_attempt evs = []" and wr: "writes evs = []"
    unfolding waiting_def by blast
  let ?tm = "\<lparr>handle = h, due = t + SAVE_DEBOUNCE_MS, t_categories = cs, t_retryCount = 0\<rparr>"
  have "advance w lat T s = advance w lat T (fire lat ?tm s)"
    by (rule advance_timer) (use fl tm assms(2) in simp_all)
  moreover have "fire lat ?tm s =
      s\<lparr>timers := [],
            trace := trace st @ evs @ [Attempt (t + SAVE_DEBOUNCE_MS) cs 0],
            inflight := [\<lparr>ready = t + SAVE_DEBOUNCE_MS + int (lat (t + SAVE_DEBOUNCE_MS)),
                          w_categories = cs, w_retryCount = 0, w_stage = Lookup\<rparr>]\<rparr>"
    using tm fl tr by (simp add: fire_def enter_eq)
  ultimately show ?thesis using at wr by auto
qed

lemma waiting_one_attempt:
  assumes "waiting st t cs s" and "t + SAVE_DEBOUNCE_MS \<le> T" and "T < t + SAVE_DEBOUNCE_MS + BASE_DELAY"
  shows "filter is_attempt (since st (advance w lat T s)) = [Attempt (t + SAVE_DEBOUNCE_MS) cs 0]"
proof -
  let ?F = "t + SAVE_DEBOUNCE_MS"
  from waiting_fires [OF assms(1,2), of w lat] obtain evs where
    at: "filter is_attempt evs = []"
    and adv: "advance w lat T s =
       advance w lat T
         (s\<lparr>timers := [], trace := trace st @ evs @ [Attempt ?F cs 0],
            inflight := [\<lparr>ready = ?F + int (lat ?F),
                          w_categories = cs, w_retryCount = 0, w_stage = Lookup\<rparr>]\<rparr>)"
    by blast
  let ?s1 = "s\<lparr>timers := [], trace := trace st @ evs @ [Attempt ?F cs 0],
            inflight := [\<lparr>ready = ?F + int (lat ?F),
                          w_categories = cs, w_retryCount = 0, w_stage = Lookup\<rparr>]\<rparr>"
  have "\<forall>tm \<in> set (timers ?s1). T < due tm" by simp
  moreover have "\<forall>pw \<in> set (inflight ?s1). T < ready pw + BASE_DELAY"
    using assms(3) by simp
  ultimately obtain evs' where
    "trace (advance w lat T ?s1) = trace ?s1 @ evs'" and "filter is_attempt evs' = []"
    using advance_enters_nothing [of ?s1 T w lat] by blast
  then have "trace (advance w lat T s) = trace st @ (evs @ [Attempt ?F cs 0] @ evs')"
    and "filter is_attempt (evs @ [Attempt ?F cs 0] @ evs') = [Attempt ?F cs 0]"
    using adv at by simp_all
  then show ?thesis using since_append by metis
qed

lemma waiting_one_write:
  assumes wt: "waiting st t cs s"
    and F: "F = t + SAVE_DEBOUNCE_MS" and Rs: "Rs = F + int (lat F)" and Rb: "Rb = Rs + int (lat Rs)"
    and oks: "fails (w Rs) GetSession = None" and u: "session (w Rs) = Some u"
    and okb: "\<forall>r. fails (w Rb) r = None"
    and T: "Rb \<le> T"
  shows "filter is_attempt (since st (advance w lat T s)) = [Attempt F cs 0] \<and>
         writes (since st (advance w lat T s)) = filter is_write (body_requests (w Rb) u cs (remote st)) \<and>
         remote (advance w lat T s) =
           fold apply_request (body_requests (w Rb) u cs (remote st)) (remote st) \<and>
         timers (advance w lat T s) = [] \<and> inflight (advance w lat T s) = []"
proof -
  have le: "t + SAVE_DEBOUNCE_MS \<le> T" using F Rs Rb T by simp
  have rm: "remote s = remote st" using wt unfolding waiting_def by blast
  from waiting_fires [OF wt le, of w lat] obtain evs where
    at: "filter is_attempt evs = []" and wr: "writes evs = []"
    and adv: "advance w lat T s =
       advance w lat T
         (s\<lparr>timers := [], trace := trace st @ evs @ [Attempt F cs 0],
            inflight := [\<lparr>ready = Rs, w_categories = cs, w_retryCount = 0, w_stage = Lookup\<rparr>]\<rparr>)"
    using F Rs by auto
  let ?s1 = "s\<lparr>timers := [], trace := trace st @ evs @ [Attempt F cs 0],
            inflight := [\<lparr>ready = Rs, w_categories = cs, w_retryCount = 0, w_stage = Lookup\<rparr>]\<rparr>"
  let ?rs = "body_requests (w Rb) u cs (remote st)"
  have "advance w lat T ?s1 =
     ?s1\<lparr>lastSaveTime := Rs,
       remote := fold apply_request (body_requests (w Rb) u cs (remote ?s1)) (remote ?s1),
       trace := trace ?s1 @ Remote GetSession # map Remote (body_requests (w Rb) u cs (remote ?s1)),
       inflight := []\<rparr>"
    by (rule write_goes_through [where k = 0 and cs = cs and Rs = Rs and Rb = Rb and u = u])
       (use oks u Rb okb T in simp_all)
  then have fin: "advance w lat T s =
     s\<lparr>lastSaveTime := Rs, timers := [], remote := fold apply_request ?rs (remote st),
       trace := trace st @ (evs @ [Attempt F cs 0] @ Remote GetSession # map Remote ?rs),
       inflight := []\<rparr>"
    using adv rm by simp
  have "since st (advance w lat T s) = evs @ [Attempt F cs 0] @ Remote GetSession # map Remote ?rs"
    by (rule since_append) (simp add: fin)
  then have "filter is_attempt (since st (advance w lat T s)) = [Attempt F cs 0]"
    and "writes (since st (advance w lat T s)) = filter is_write ?rs"
    using at wr by (simp_all add: writes_requests)
  then show ?thesis by (simp add: fin)
qed

subsection \<open>Running the event loop on a given input\<close>

text \<open>The definitions that unfold a run of the event loop from a given state.\<close>

lemmas loop_eval =
  run_def call_def advance.simps next_due_def pendings_def saveData_start_def setItem_def
  clearTimeout_def setTimeout_def emit_def enter_def fire_def resume_def Let_def
  session_resolved_def body_done_def catch_block_def do_request_def getIsAdminUser_def
  retryable_def since_def
  MIN_SAVE_INTERVAL_MS_def SAVE_DEBOUNCE_MS_def BASE_DELAY_def MAX_RETRIES_def

subsection \<open>A save whose calls all succeed\<close>

lemma body_requests_effect:
  "fold apply_request (body_requests e u cs db) db =
     (if getIsAdminUser e db then synced u cs db
      else db\<lparr>progress_tbl := upsert progress_key (progressPayload u cs) (progress_tbl db)\<rparr>)"
  by (simp add: body_requests_def admin_requests_effect)

lemma saveDataToSupabase_ok:
  assumes "session e = Some u" and "\<forall>r. fails e r = None"
  shows "saveDataToSupabase e now cs k st =
     st\<lparr>lastSaveTime := now,
        remote := fold apply_request (body_requests e u cs (remote st)) (remote st),
        trace := trace st @ Attempt now cs k # Remote GetSession #
                   map Remote (body_requests e u cs (remote st))\<rparr>"
  using assms body_done_ok [OF assms(2), of now u cs k
      "st\<lparr>lastSaveTime := now, trace := trace st @ [Attempt now cs k, Remote GetSession]\<rparr>"]
  by (simp add: saveDataToSupabase_steps)

lemma load_remote_unavailable:
  assumes "(\<forall>r. is_fetch r \<longrightarrow> fails e r \<noteq> None) \<or> fails e GetSession \<noteq> None \<or> session e = None"
  shows "\<forall>cs. load_remote e db \<noteq> Inr (Some cs)"
  using assms
proof (elim disjE)
  assume "\<forall>r. is_fetch r \<longrightarrow> fails e r \<noteq> None"
  then show ?thesis by (rule load_remote_fetch_fails)
next
  assume "fails e GetSession \<noteq> None"
  then show ?thesis by (auto simp: load_remote_def)
next
  assume "session e = None"
  then show ?thesis by (rule load_remote_no_session)
qed

subsection \<open>Debounced writes and retries\<close>

lemma entered_first_append [simp]:
  "entered_first (xs @ ys) = entered_first xs @ entered_first ys"
  by (induction xs rule: entered_first.induct) simp_all

lemma entered_first_no_attempt: "filter is_attempt evs = [] \<Longrightarrow> entered_first evs = []"
  by (induction evs rule: entered_first.induct) simp_all

lemma debounced_cong: "timers s = timers st \<Longrightarrow> debounced s = debounced st"
  by (simp add: debounced_def)

lemma retries_cong: "timers s = timers st \<Longrightarrow> retries s = retries st"
  by (simp add: retries_def)

lemma debounced_catch_block: "debounced (catch_block now cs k err st) = debounced st"
  by (simp add: catch_block_eq debounced_def)

text \<open>A write that goes on sets no debounce timer and cancels none.\<close>

lemma debounced_resume: "debounced (resume w lat pw st) = debounced st"
proof -
  let ?st = "st\<lparr>inflight := remove1 pw (inflight st)\<rparr>"
  let ?now = "ready pw"
  let ?cs = "w_categories pw"
  let ?k = "w_retryCount pw"
  have c: "debounced (catch_block ?now ?cs ?k err s) = debounced st" if "timers s = timers st" for err s
    using that debounced_cong [of s st] by (simp add: debounced_catch_block)
  show ?thesis
  proof (cases "w_stage pw")
    case Lookup
    show ?thesis
      using c by (simp add: resume_Lookup [OF Lookup] session_resolved_eq debounced_def
                    split: option.splits)
  next
    case (Body u)
    let ?rs = "body_requests (w ?now) u ?cs (remote ?st)"
    from body_done_shape [of "w ?now" ?now u ?cs ?k ?st] obtain n db where
      eq: "body_done (w ?now) ?now u ?cs ?k ?st =
       (case fst (do_requests (w ?now) ?rs ?st) of
          None \<Rightarrow> ?st\<lparr>remote := db, trace := trace ?st @ map Remote (take n ?rs)\<rparr>
        | Some err \<Rightarrow>
            catch_block ?now ?cs ?k err
              (?st\<lparr>remote := db, trace := trace ?st @ map Remote (take n ?rs)\<rparr>))"
      by blast
    show ?thesis
      using c by (cases "fst (do_requests (w ?now) ?rs ?st)")
                 (simp_all add: resume_Body [OF Body] eq debounced_def)
  qed
qed

lemma fire_effect:
  "trace (fire lat tm st) = trace st @ [Attempt (due tm) (t_categories tm) (t_retryCount tm)] \<and>
   set (debounced (fire lat tm st)) \<subseteq> set (debounced st)"
  by (auto simp: fire_def enter_eq debounced_def)

text \<open>
  When every pending debounced write carries the payload \<open>cs\<close>, every write entered
  with retry count 0 while the clock runs carries \<open>cs\<close>.
\<close>

lemma advance_enters_debounced:
  "\<forall>tm \<in> set (debounced st). t_categories tm = cs \<Longrightarrow>
   \<exists>evs. trace (advance w lat T st) = trace st @ evs \<and> set (entered_first evs) \<subseteq> {cs}"
proof (induction w lat T st rule: advance.induct)
  case (1 w lat T st)
  show ?case
  proof (cases "next_due T st")
    case None
    then have "advance w lat T st = st" by (rule advance_stop)
    then show ?thesis by simp
  next
    case (Some p)
    then have mem: "p \<in> set (pendings st)" using next_due_mem by blast
    have "\<exists>evs. trace (step w lat p st) = trace st @ evs \<and> set (entered_first evs) \<subseteq> {cs} \<and>
            (\<forall>tm \<in> set (debounced (step w lat p st)). t_categories tm = cs)"
    proof (cases p)
      case (Resuming pw)
      from resume_effect [of w lat pw st] obtain evs where
        "trace (resume w lat pw st) = trace st @ evs" and "filter is_attempt evs = []"
        by blast
      then have "trace (step w lat p st) = trace st @ evs" and "set (entered_first evs) \<subseteq> {cs}"
        using Resuming by (simp_all add: entered_first_no_attempt)
      moreover have "\<forall>tm \<in> set (debounced (step w lat p st)). t_categories tm = cs"
        using Resuming "1.prems" by (simp add: debounced_resume)
      ultimately show ?thesis by blast
    next
      case (Firing tm)
      then have tm: "tm \<in> set (timers st)" using mem by (auto simp: pendings_def)
      have "t_retryCount tm = 0 \<Longrightarrow> t_categories tm = cs"
        using tm "1.prems" by (simp add: debounced_def)
      then have "set (entered_first [Attempt (due tm) (t_categories tm) (t_retryCount tm)]) \<subseteq> {cs}"
        by simp
      moreover have "trace (step w lat p st) =
          trace st @ [Attempt (due tm) (t_categories tm) (t_retryCount tm)]"
        and "\<forall>tm \<in> set (debounced (step w lat p st)). t_categories tm = cs"
        using Firing fire_effect [of lat tm st] "1.prems" by auto
      ultimately show ?thesis by blast
    qed
    then obtain evs where tr: "trace (step w lat p st) = trace st @ evs"
      and en: "set (entered_first evs) \<subseteq> {cs}"
      and inv: "\<forall>tm \<in> set (debounced (step w lat p st)). t_categories tm = cs"
      by blast
    from "1.IH" [OF Some inv] obtain evs' where
      "trace (advance w lat T (step w lat p st)) = trace (step w lat p st) @ evs'"
      and "set (entered_first evs') \<subseteq> {cs}"
      by blast
    then have "trace (advance w lat T st) = trace st @ (evs @ evs')"
      and "set (entered_first (evs @ evs')) \<subseteq> {cs}"
      using tr en advance_step [OF Some, of w lat] by simp_all
    then show ?thesis by blast
  qed
qed

text \<open>What a call leaves pending.\<close>

lemma saveData_start_pending:
  assumes "timers_ok st"
  shows "set (debounced (saveData_start e now l cs force st)) \<subseteq>
           {\<lparr>handle = nextHandle st, due = now + SAVE_DEBOUNCE_MS, t_categories = cs, t_retryCount = 0\<rparr>} \<and>
         retries (saveData_start e now l cs force st) = retries st"
proof -
  let ?c = "cleared e cs st"
  have d: "debounced ?c = []" and r: "retries ?c = retries st"
    using assms by (rule debounced_cleared, rule retries_cleared)
  show ?thesis
  proof (cases "force \<or> \<not> now - lastSaveTime st < MIN_SAVE_INTERVAL_MS")
    case True
    then have "timers (saveData_start e now l cs force st) = timers ?c"
      by (simp add: saveData_start_unfold enter_eq)
    then have "debounced (saveData_start e now l cs force st) = debounced ?c"
      and "retries (saveData_start e now l cs force st) = retries ?c"
      by (rule debounced_cong, rule retries_cong)
    then show ?thesis using d r by simp
  next
    case False
    then have "timers (saveData_start e now l cs force st) =
        timers ?c @ [\<lparr>handle = nextHandle st, due = now + SAVE_DEBOUNCE_MS,
                      t_categories = cs, t_retryCount = 0\<rparr>]"
      by (simp add: saveData_start_unfold)
    then show ?thesis using d r by (simp add: debounced_def retries_def)
  qed
qed

lemma saveData_start_trace:
  "\<exists>post. since st (saveData_start e now l cs force st) = save_prefix e cs st @ post \<and>
     (post = [Attempt now cs 0] \<or> post = [SetTimeout (nextHandle st) SAVE_DEBOUNCE_MS])"
proof (cases "force \<or> \<not> now - lastSaveTime st < MIN_SAVE_INTERVAL_MS")
  case True
  then have "trace (saveData_start e now l cs force st) = trace st @ (save_prefix e cs st @ [Attempt now cs 0])"
    by (simp add: saveData_start_unfold enter_eq cleared_eq)
  then show ?thesis using since_append by blast
next
  case False
  then have "trace (saveData_start e now l cs force st) =
      trace st @ (save_prefix e cs st @ [SetTimeout (nextHandle st) SAVE_DEBOUNCE_MS])"
    by (simp add: saveData_start_unfold)
  then show ?thesis using since_append by blast
qed

subsection \<open>Two calls in quick succession\<close>

text \<open>
  \<^verbatim>\<open>lastSaveTime\<close> is assigned only when the session lookup has resolved. Two
  debounced calls 1 ms apart, the first of them more than \<^verbatim>\<open>MIN_SAVE_INTERVAL_MS\<close>
  after the last write, therefore both enter a write at once when the lookup takes
  longer than that, and both writes are made.
\<close>

lemma back_to_back_calls_both_write:
  "filter is_attempt
     (since (idle shared_db) (advance (\<lambda>t. subuser_env) (\<lambda>t. 50) 5000
        (run (\<lambda>t. subuser_env) (\<lambda>t. 50)
           [(1000, arrays_tree, False), (1001, arrays_tree_open, False)] (idle shared_db)))) =
     [Attempt 1000 arrays_tree 0, Attempt 1001 arrays_tree_open 0] \<and>
   writes
     (since (idle shared_db) (advance (\<lambda>t. subuser_env) (\<lambda>t. 50) 5000
        (run (\<lambda>t. subuser_env) (\<lambda>t. 50)
           [(1000, arrays_tree, False), (1001, arrays_tree_open, False)] (idle shared_db)))) =
     [UpsertProgress (progressPayload ''u1'' arrays_tree),
      UpsertProgress (progressPayload ''u1'' arrays_tree_open)]"
  by (simp add: loop_eval idle_def subuser_env_def shared_db_def)

section \<open>The claims\<close>

subsection \<open>C1: a sub-user sees the catalog with that user's own overlay\<close>

text \<open>
  C1, as the code has it. For a signed-in user \<open>u\<close> who is no admin, when the session
  lookup and the three selects succeed, \<^verbatim>\<open>loadData\<close> returns a tree in which every
  problem row of the shared catalog whose category exists appears under that
  category. A problem of the tree has \<^verbatim>\<open>completed = false\<close> and \<^verbatim>\<open>note = ""\<close> when the
  progress table has no row for \<open>u\<close> and that problem; when it has exactly one, the
  problem has that row's \<^verbatim>\<open>completed\<close>, and that row's note with a null note read
  as \<^verbatim>\<open>""\<close>. Rows of other users do not matter: a store that differs only in them
  gives the same result.
\<close>

theorem subuser_load_overlays_own_progress:
  assumes "session e = Some u" and "\<not> getIsAdminUser e db" and "fails e GetSession = None"
    and "fails e (SelectCategories None) = None" and "fails e (SelectProblems None) = None"
    and "fails e (SelectProgress u) = None"
  shows "\<exists>tree. loadData e db s = Inr tree \<and>
     (\<forall>cr \<in> set (categories_tbl db). \<forall>pr \<in> set (problems_tbl db).
         pr_category_id pr = cr_id cr \<longrightarrow>
           (\<exists>c \<in> set tree. c_id c = cr_id cr \<and> (\<exists>p \<in> set (c_problems c). p_id p = pr_id pr))) \<and>
     (\<forall>c \<in> set tree. \<forall>p \<in> set (c_problems c).
         ((\<forall>r \<in> set (progress_tbl db). \<not> (up_user_id r = u \<and> up_problem_id r = p_id p)) \<longrightarrow>
            p_completed p = False \<and> p_note p = Some '''') \<and>
         (\<forall>r \<in> set (progress_tbl db).
            up_user_id r = u \<and> up_problem_id r = p_id p \<and>
            (\<forall>r' \<in> set (progress_tbl db).
               up_user_id r' = u \<and> up_problem_id r' = p_id p \<longrightarrow> r' = r) \<longrightarrow>
              p_completed p = up_completed r \<and>
              p_note p = Some (case up_note r of None \<Rightarrow> '''' | Some n \<Rightarrow> n))) \<and>
     (\<forall>db'. categories_tbl db' = categories_tbl db \<and> problems_tbl db' = problems_tbl db \<and>
            app_admins db' = app_admins db \<and>
            filter (\<lambda>r. up_user_id r = u) (progress_tbl db') =
              filter (\<lambda>r. up_user_id r = u) (progress_tbl db) \<longrightarrow>
              loadData e db' s = loadData e db s)"
proof -
  have ld: "loadData e db s = Inr (subuser_tree u db)"
    using assms by (rule loadData_subuser)
  have cover: "\<forall>cr \<in> set (categories_tbl db). \<forall>pr \<in> set (problems_tbl db).
         pr_category_id pr = cr_id cr \<longrightarrow>
           (\<exists>c \<in> set (subuser_tree u db). c_id c = cr_id cr \<and>
              (\<exists>p \<in> set (c_problems c). p_id p = pr_id pr))"
  proof (intro ballI impI)
    fix cr pr
    assume "cr \<in> set (categories_tbl db)" and "pr \<in> set (problems_tbl db)"
      and "pr_category_id pr = cr_id cr"
    then show "\<exists>c \<in> set (subuser_tree u db). c_id c = cr_id cr \<and>
              (\<exists>p \<in> set (c_problems c). p_id p = pr_id pr)"
      by (rule subuser_tree_covers)
  qed
  have vals: "\<forall>c \<in> set (subuser_tree u db). \<forall>p \<in> set (c_problems c).
         ((\<forall>r \<in> set (progress_tbl db). \<not> (up_user_id r = u \<and> up_problem_id r = p_id p)) \<longrightarrow>
            p_completed p = False \<and> p_note p = Some '''') \<and>
         (\<forall>r \<in> set (progress_tbl db).
            up_user_id r = u \<and> up_problem_id r = p_id p \<and>
            (\<forall>r' \<in> set (progress_tbl db).
               up_user_id r' = u \<and> up_problem_id r' = p_id p \<longrightarrow> r' = r) \<longrightarrow>
              p_completed p = up_completed r \<and>
              p_note p = Some (case up_note r of None \<Rightarrow> '''' | Some n \<Rightarrow> n))"
  proof (intro ballI conjI impI)
    fix c p
    assume c: "c \<in> set (subuser_tree u db)" and p: "p \<in> set (c_problems c)"
    {
      assume n: "\<forall>r \<in> set (progress_tbl db). \<not> (up_user_id r = u \<and> up_problem_id r = p_id p)"
      show "p_completed p = False"
        using subuser_tree_default [OF c p n] by (rule conjunct1)
      show "p_note p = Some []"
        using subuser_tree_default [OF c p n] by (rule conjunct2)
    }
    fix r
    assume r: "r \<in> set (progress_tbl db)"
      and h: "up_user_id r = u \<and> up_problem_id r = p_id p \<and>
            (\<forall>r' \<in> set (progress_tbl db).
               up_user_id r' = u \<and> up_problem_id r' = p_id p \<longrightarrow> r' = r)"
    have h1: "up_user_id r = u" and h2: "up_problem_id r = p_id p"
      and h3: "\<forall>r' \<in> set (progress_tbl db).
               up_user_id r' = u \<and> up_problem_id r' = p_id p \<longrightarrow> r' = r"
      using h by blast+
    show "p_completed p = up_completed r"
      using subuser_tree_overlay [OF c p r h1 h2 h3] by (rule conjunct1)
    show "p_note p = Some (case up_note r of None \<Rightarrow> [] | Some n \<Rightarrow> n)"
      using subuser_tree_overlay [OF c p r h1 h2 h3] by (rule conjunct2)
  qed
  have indep: "\<forall>db'. categories_tbl db' = categories_tbl db \<and> problems_tbl db' = problems_tbl db \<and>
            app_admins db' = app_admins db \<and>
            filter (\<lambda>r. up_user_id r = u) (progress_tbl db') =
              filter (\<lambda>r. up_user_id r = u) (progress_tbl db) \<longrightarrow>
              loadData e db' s = loadData e db s"
  proof (intro allI impI)
    fix db' :: remote_db
    assume h: "categories_tbl db' = categories_tbl db \<and> problems_tbl db' = problems_tbl db \<and>
            app_admins db' = app_admins db \<and>
            filter (\<lambda>r. up_user_id r = u) (progress_tbl db') =
              filter (\<lambda>r. up_user_id r = u) (progress_tbl db)"
    then have "getIsAdminUser e db' = getIsAdminUser e db"
      by (simp add: getIsAdminUser_def split: option.splits)
    then have "loadData e db' s = Inr (subuser_tree u db')"
      using assms by (intro loadData_subuser) simp_all
    moreover have "subuser_tree u db' = subuser_tree u db"
      using h by (intro subuser_tree_own_rows) simp_all
    ultimately show "loadData e db' s = loadData e db s" using ld by simp
  qed
  show ?thesis
    by (intro exI [of _ "subuser_tree u db"] conjI ld cover vals indep)
qed

theorem subuser_load_overlays_own_progress_witness:
  "session subuser_env = Some ''u1'' \<and> \<not> getIsAdminUser subuser_env overlay_db \<and>
   loadData subuser_env overlay_db Absent = loadData subuser_env
       (overlay_db\<lparr>progress_tbl := [\<lparr>up_user_id = ''u1'', up_problem_id = ''p1'',
                                       up_completed = True, up_note = Some ''done''\<rparr>]\<rparr>) Absent \<and>
   loadData subuser_env overlay_db Absent =
     Inr [\<lparr>c_id = ''c1'', c_title = ''Arrays'',
           c_problems = [\<lparr>p_id = ''p1'', p_title = ''Two Sum'', p_url = ''u'',
                          p_platform = LeetCode, p_difficulty = Easy,
                          p_completed = True, p_note = Some ''done''\<rparr>]\<rparr>]"
proof -
  have h1: "session subuser_env = Some ''u1''" by (simp add: subuser_env_def)
  have h2: "\<not> getIsAdminUser subuser_env overlay_db"
    by (simp add: getIsAdminUser_def subuser_env_def overlay_db_def shared_db_def)
  have h3: "fails subuser_env GetSession = None" "fails subuser_env (SelectCategories None) = None"
    "fails subuser_env (SelectProblems None) = None" "fails subuser_env (SelectProgress ''u1'') = None"
    by (simp_all add: subuser_env_def)
  note th = subuser_load_overlays_own_progress [OF h1 h2 h3, of Absent]
  let ?db' = "overlay_db\<lparr>progress_tbl := [\<lparr>up_user_id = ''u1'', up_problem_id = ''p1'',
                                       up_completed = True, up_note = Some ''done''\<rparr>]\<rparr>"
  have same: "categories_tbl ?db' = categories_tbl overlay_db \<and>
      problems_tbl ?db' = problems_tbl overlay_db \<and> app_admins ?db' = app_admins overlay_db \<and>
      filter (\<lambda>r. up_user_id r = ''u1'') (progress_tbl ?db') =
        filter (\<lambda>r. up_user_id r = ''u1'') (progress_tbl overlay_db)"
    by (simp add: overlay_db_def)
  from th obtain tree where
    ind: "\<forall>db'. categories_tbl db' = categories_tbl overlay_db \<and>
            problems_tbl db' = problems_tbl overlay_db \<and>
            app_admins db' = app_admins overlay_db \<and>
            filter (\<lambda>r. up_user_id r = ''u1'') (progress_tbl db') =
              filter (\<lambda>r. up_user_id r = ''u1'') (progress_tbl overlay_db) \<longrightarrow>
              loadData subuser_env db' Absent = loadData subuser_env overlay_db Absent"
    by blast
  have a: "loadData subuser_env overlay_db Absent = loadData subuser_env ?db' Absent"
    using ind [rule_format, OF same] by simp
  have b: "loadData subuser_env overlay_db Absent =
     Inr [\<lparr>c_id = ''c1'', c_title = ''Arrays'',
           c_problems = [\<lparr>p_id = ''p1'', p_title = ''Two Sum'', p_url = ''u'',
                          p_platform = LeetCode, p_difficulty = Easy,
                          p_completed = True, p_note = Some ''done''\<rparr>]\<rparr>]"
    unfolding loadData_subuser [OF h1 h2 h3]
    by (simp add: subuser_tree_def overlay_db_def shared_db_def
        progressByProblem_def overlay_problem_def)
  show ?thesis using h1 h2 a b by simp
qed

text \<open>
  C1 as stated fails on a null note: user \<open>u1\<close> saves a completed problem that has no
  note, which stores a progress row with a null note; the next load shows the
  problem with the note \<^verbatim>\<open>""\<close>, not with the row's value.
\<close>

theorem null_note_reads_as_empty_counterexample:
  "progress_tbl (remote (saveDataToSupabase subuser_env 1000 arrays_tree 0 (idle shared_db))) =
     [\<lparr>up_user_id = ''u1'', up_problem_id = ''p1'', up_completed = True, up_note = None\<rparr>] \<and>
   loadData subuser_env (remote (saveDataToSupabase subuser_env 1000 arrays_tree 0 (idle shared_db)))
       Absent =
     Inr [\<lparr>c_id = ''c1'', c_title = ''Arrays'',
           c_problems = [\<lparr>p_id = ''p1'', p_title = ''Two Sum'', p_url = ''u'',
                          p_platform = LeetCode, p_difficulty = Easy,
                          p_completed = True, p_note = Some ''''\<rparr>]\<rparr>]"
proof -
  have h1: "session subuser_env = Some ''u1''" by (simp add: subuser_env_def)
  have h3: "fails subuser_env GetSession = None" "fails subuser_env (SelectCategories None) = None"
    "fails subuser_env (SelectProblems None) = None" "fails subuser_env (SelectProgress ''u1'') = None"
    by (simp_all add: subuser_env_def)
  let ?db = "shared_db\<lparr>progress_tbl :=
     [\<lparr>up_user_id = ''u1'', up_problem_id = ''p1'', up_completed = True, up_note = None\<rparr>]\<rparr>"
  have r: "remote (saveDataToSupabase subuser_env 1000 arrays_tree 0 (idle shared_db)) = ?db"
    by (simp add: saveDataToSupabase_def save_try_def do_request_def emit_def getIsAdminUser_def
        subuser_env_def idle_def shared_db_def progressPayload_def arrays_tree_def
        upsert_def upsert_row_def)
  have h2: "\<not> getIsAdminUser subuser_env ?db"
    by (simp add: getIsAdminUser_def subuser_env_def shared_db_def)
  have "loadData subuser_env ?db Absent =
     Inr [\<lparr>c_id = ''c1'', c_title = ''Arrays'',
           c_problems = [\<lparr>p_id = ''p1'', p_title = ''Two Sum'', p_url = ''u'',
                          p_platform = LeetCode, p_difficulty = Easy,
                          p_completed = True, p_note = Some ''''\<rparr>]\<rparr>]"
    unfolding loadData_subuser [OF h1 h2 h3]
    by (simp add: subuser_tree_def shared_db_def progressByProblem_def overlay_problem_def)
  then show ?thesis by (simp add: r)
qed

subsection \<open>C2: an admin save deletes exactly the rows that left the tree\<close>

text \<open>
  C2. In a save by the session user \<open>u\<close>, whatever fails, the delete calls made are
  an initial part of: the delete of problem rows, then the delete of category rows
  (each made only when its id list is not empty). The id lists are exactly the ids of
  the rows of \<open>u\<close> found in the table before the save minus the ids present in the
  tree. When \<open>u\<close> is an admin and no call fails, both deletes are made in that order,
  and afterwards, among the rows whose id is not in the tree, exactly the rows of
  \<open>u\<close> are gone: every other such row is still there, unchanged; the progress table
  is untouched.
\<close>

theorem admin_save_deletes_set_difference:
  assumes "session e = Some u"
  shows "(\<exists>m. filter is_delete (since st (saveDataToSupabase e now categories k st)) =
              take m (map Remote (delete_requests u categories (remote st)))) \<and>
     delete_requests u categories (remote st) =
       (if problemsToDelete u categories (remote st) = [] then []
        else [DeleteProblems (problemsToDelete u categories (remote st)) u]) @
       (if categoriesToDelete u categories (remote st) = [] then []
        else [DeleteCategories (categoriesToDelete u categories (remote st)) u]) \<and>
     set (problemsToDelete u categories (remote st)) =
       set (existingProblems u (remote st)) - desiredProblemIds categories \<and>
     set (categoriesToDelete u categories (remote st)) =
       set (existingCategories u (remote st)) - desiredCategoryIds categories \<and>
     (getIsAdminUser e (remote st) \<and> (\<forall>r. fails e r = None) \<longrightarrow>
        filter is_delete (since st (saveDataToSupabase e now categories k st)) =
          map Remote (delete_requests u categories (remote st)) \<and>
        {x \<in> set (categories_tbl (remote (saveDataToSupabase e now categories k st))).
           cr_id x \<notin> desiredCategoryIds categories} =
          {x \<in> set (categories_tbl (remote st)).
             cr_id x \<notin> desiredCategoryIds categories \<and> cr_user_id x \<noteq> u} \<and>
        {x \<in> set (problems_tbl (remote (saveDataToSupabase e now categories k st))).
           pr_id x \<notin> desiredProblemIds categories} =
          {x \<in> set (problems_tbl (remote st)).
             pr_id x \<notin> desiredProblemIds categories \<and> pr_user_id x \<noteq> u} \<and>
        progress_tbl (remote (saveDataToSupabase e now categories k st)) =
          progress_tbl (remote st))"
proof -
  let ?st' = "saveDataToSupabase e now categories k st"
  let ?db = "remote st"
  have a: "\<exists>m. filter is_delete (since st ?st') =
              take m (map Remote (delete_requests u categories ?db))"
    using assms by (rule trace_saveDataToSupabase_deletes)
  have b: "delete_requests u categories ?db =
       (if problemsToDelete u categories ?db = [] then []
        else [DeleteProblems (problemsToDelete u categories ?db) u]) @
       (if categoriesToDelete u categories ?db = [] then []
        else [DeleteCategories (categoriesToDelete u categories ?db) u])"
    by (simp add: delete_requests_def)
  have c: "set (problemsToDelete u categories ?db) =
       set (existingProblems u ?db) - desiredProblemIds categories"
    by (auto simp: problemsToDelete_def)
  have d: "set (categoriesToDelete u categories ?db) =
       set (existingCategories u ?db) - desiredCategoryIds categories"
    by (auto simp: categoriesToDelete_def)
  have f: "getIsAdminUser e ?db \<and> (\<forall>r. fails e r = None) \<longrightarrow>
        filter is_delete (since st ?st') = map Remote (delete_requests u categories ?db) \<and>
        {x \<in> set (categories_tbl (remote ?st')). cr_id x \<notin> desiredCategoryIds categories} =
          {x \<in> set (categories_tbl ?db).
             cr_id x \<notin> desiredCategoryIds categories \<and> cr_user_id x \<noteq> u} \<and>
        {x \<in> set (problems_tbl (remote ?st')). pr_id x \<notin> desiredProblemIds categories} =
          {x \<in> set (problems_tbl ?db).
             pr_id x \<notin> desiredProblemIds categories \<and> pr_user_id x \<noteq> u} \<and>
        progress_tbl (remote ?st') = progress_tbl ?db"
  proof
    assume h: "getIsAdminUser e ?db \<and> (\<forall>r. fails e r = None)"
    then have eq: "?st' =
       st\<lparr>lastSaveTime := now, remote := synced u categories ?db,
          trace := trace st @ Attempt now categories k # Remote GetSession #
                   map Remote (admin_requests u categories ?db)\<rparr>"
      using saveDataToSupabase_admin [OF assms, of st now categories k] by blast
    have "since st ?st' =
        Attempt now categories k # Remote GetSession # map Remote (admin_requests u categories ?db)"
      by (rule since_append) (simp add: eq)
    then have f1: "filter is_delete (since st ?st') =
        map Remote (delete_requests u categories ?db)"
      by (simp add: admin_requests_eq is_delete_delete_requests)
    have r: "remote ?st' = synced u categories ?db" by (simp add: eq)
    have f2: "{x \<in> set (categories_tbl (remote ?st')). cr_id x \<notin> desiredCategoryIds categories} =
          {x \<in> set (categories_tbl ?db).
             cr_id x \<notin> desiredCategoryIds categories \<and> cr_user_id x \<noteq> u}"
      unfolding r synced_def categoriesToDelete_def existingCategories_def
      using sync_outside [where key = cr_id and P = "categoriesPayload u categories"
          and owner = cr_user_id and u = u and tbl = "categories_tbl ?db",
          OF categoriesPayload_keys]
      by simp
    have f3: "{x \<in> set (problems_tbl (remote ?st')). pr_id x \<notin> desiredProblemIds categories} =
          {x \<in> set (problems_tbl ?db).
             pr_id x \<notin> desiredProblemIds categories \<and> pr_user_id x \<noteq> u}"
      unfolding r synced_def problemsToDelete_def existingProblems_def
      using sync_outside [where key = pr_id and P = "problemsPayload u categories"
          and owner = pr_user_id and u = u and tbl = "problems_tbl ?db",
          OF problemsPayload_keys]
      by simp
    have f4: "progress_tbl (remote ?st') = progress_tbl ?db"
      by (simp add: r synced_def)
    show "filter is_delete (since st ?st') = map Remote (delete_requests u categories ?db) \<and>
        {x \<in> set (categories_tbl (remote ?st')). cr_id x \<notin> desiredCategoryIds categories} =
          {x \<in> set (categories_tbl ?db).
             cr_id x \<notin> desiredCategoryIds categories \<and> cr_user_id x \<noteq> u} \<and>
        {x \<in> set (problems_tbl (remote ?st')). pr_id x \<notin> desiredProblemIds categories} =
          {x \<in> set (problems_tbl ?db).
             pr_id x \<notin> desiredProblemIds categories \<and> pr_user_id x \<noteq> u} \<and>
        progress_tbl (remote ?st') = progress_tbl ?db"
      using f1 f2 f3 f4 by (intro conjI)
  qed
  show ?thesis by (intro conjI a b c d f)
qed

theorem admin_save_deletes_set_difference_witness:
  "session admin_env = Some ''admin'' \<and> getIsAdminUser admin_env (remote (idle two_db)) \<and>
   filter is_delete (since (idle two_db) (saveDataToSupabase admin_env 1000 arrays_tree 0 (idle two_db))) =
     [Remote (DeleteProblems [''p2''] ''admin''), Remote (DeleteCategories [''c2''] ''admin'')] \<and>
   progress_tbl (remote (saveDataToSupabase admin_env 1000 arrays_tree 0 (idle two_db))) = []"
proof -
  have h1: "session admin_env = Some ''admin''" by (simp add: admin_env_def)
  have h2: "getIsAdminUser admin_env (remote (idle two_db))"
    by (simp add: getIsAdminUser_def admin_env_def idle_def two_db_def)
  have h3: "\<forall>r. fails admin_env r = None" by (simp add: admin_env_def)
  have d: "delete_requests ''admin'' arrays_tree (remote (idle two_db)) =
      [DeleteProblems [''p2''] ''admin'', DeleteCategories [''c2''] ''admin'']"
    by (simp add: delete_requests_def problemsToDelete_def categoriesToDelete_def
        existingProblems_def existingCategories_def desiredProblemIds_def desiredCategoryIds_def
        idle_def two_db_def arrays_tree_def)
  have p: "progress_tbl (remote (idle two_db)) = []" by (simp add: idle_def two_db_def)
  note th = admin_save_deletes_set_difference [OF h1, of "idle two_db" 1000 arrays_tree 0]
  have "filter is_delete (since (idle two_db)
          (saveDataToSupabase admin_env 1000 arrays_tree 0 (idle two_db))) =
        map Remote (delete_requests ''admin'' arrays_tree (remote (idle two_db)))"
    and "progress_tbl (remote (saveDataToSupabase admin_env 1000 arrays_tree 0 (idle two_db))) =
        progress_tbl (remote (idle two_db))"
    using th h2 h3 by blast+
  then show ?thesis using h1 h2 d p by simp
qed

subsection \<open>C3: a burst of debounced calls makes one write\<close>

text \<open>
  C3, as the code has it. Take one or more debounced calls of \<^verbatim>\<open>saveData\<close>, each
  less than \<^verbatim>\<open>MIN_SAVE_INTERVAL_MS\<close> after \<^verbatim>\<open>lastSaveTime\<close> and each less than
  \<^verbatim>\<open>SAVE_DEBOUNCE_MS\<close> after the call before it, starting with no timer pending and
  no write in flight. While the calls arrive no write is entered and no remote call is
  made. At \<open>F\<close>, \<^verbatim>\<open>SAVE_DEBOUNCE_MS\<close> after the last call, one write is entered, with
  the payload \<open>cs\<close> of the last call, and it is the only one entered before
  \<open>F + BASE_DELAY\<close>, whatever the world does. When its session lookup, resolving at
  \<open>Rs\<close>, finds the session of a user \<open>u\<close> and the calls of its body, ending at
  \<open>Rb\<close>, all succeed, then from \<open>Rb\<close> on, for ever: that write is the only one
  entered; the remote writes made are exactly those of one save of \<open>cs\<close> (a
  sub-user's upsert of the progress payload, or an admin's two upserts and deletes);
  the remote tables are what those calls leave; and nothing is pending.
\<close>

theorem rapid_debounced_calls_make_one_write:
  assumes "calls \<noteq> []" and "rapid calls"
    and "\<forall>c \<in> set calls. \<not> snd (snd c) \<and> fst c - lastSaveTime st < MIN_SAVE_INTERVAL_MS"
    and "timers st = []" and "inflight st = []"
    and "F = fst (last calls) + SAVE_DEBOUNCE_MS" and "cs = fst (snd (last calls))"
    and "Rs = F + int (lat F)" and "Rb = Rs + int (lat Rs)"
  shows "filter is_attempt (since st (run w lat calls st)) = [] \<and>
         writes (since st (run w lat calls st)) = [] \<and>
         (F \<le> T \<and> T < F + BASE_DELAY \<longrightarrow>
            filter is_attempt (since st (advance w lat T (run w lat calls st))) = [Attempt F cs 0]) \<and>
         (fails (w Rs) GetSession = None \<and> session (w Rs) = Some u \<and>
          (\<forall>r. fails (w Rb) r = None) \<and> Rb \<le> T' \<longrightarrow>
            filter is_attempt (since st (advance w lat T' (run w lat calls st))) = [Attempt F cs 0] \<and>
            writes (since st (advance w lat T' (run w lat calls st))) =
              (if getIsAdminUser (w Rb) (remote st)
               then [UpsertCategories (categoriesPayload u cs), UpsertProblems (problemsPayload u cs)]
                    @ delete_requests u cs (remote st)
               else [UpsertProgress (progressPayload u cs)]) \<and>
            remote (advance w lat T' (run w lat calls st)) =
              (if getIsAdminUser (w Rb) (remote st) then synced u cs (remote st)
               else (remote st)\<lparr>progress_tbl :=
                      upsert progress_key (progressPayload u cs) (progress_tbl (remote st))\<rparr>) \<and>
            timers (advance w lat T' (run w lat calls st)) = [] \<and>
            inflight (advance w lat T' (run w lat calls st)) = [])"
proof -
  let ?s = "run w lat calls st"
  have wl: "waiting st (fst (last calls)) cs ?s"
    using burst_ends_waiting [OF assms(1-5), of w lat] assms(7) by simp
  then obtain evs where "trace ?s = trace st @ evs" and "filter is_attempt evs = []"
    and "writes evs = []"
    unfolding waiting_def by blast
  then have "since st ?s = evs" and "filter is_attempt evs = []" and "writes evs = []"
    using since_append by blast+
  then have a: "filter is_attempt (since st ?s) = []" and b: "writes (since st ?s) = []"
    by simp_all
  have c: "F \<le> T \<and> T < F + BASE_DELAY \<longrightarrow>
            filter is_attempt (since st (advance w lat T ?s)) = [Attempt F cs 0]"
    using waiting_one_attempt [OF wl, of T w lat] assms(6) by simp
  have d: "fails (w Rs) GetSession = None \<and> session (w Rs) = Some u \<and>
          (\<forall>r. fails (w Rb) r = None) \<and> Rb \<le> T' \<longrightarrow>
            filter is_attempt (since st (advance w lat T' ?s)) = [Attempt F cs 0] \<and>
            writes (since st (advance w lat T' ?s)) =
              (if getIsAdminUser (w Rb) (remote st)
               then [UpsertCategories (categoriesPayload u cs), UpsertProblems (problemsPayload u cs)]
                    @ delete_requests u cs (remote st)
               else [UpsertProgress (progressPayload u cs)]) \<and>
            remote (advance w lat T' ?s) =
              (if getIsAdminUser (w Rb) (remote st) then synced u cs (remote st)
               else (remote st)\<lparr>progress_tbl :=
                      upsert progress_key (progressPayload u cs) (progress_tbl (remote st))\<rparr>) \<and>
            timers (advance w lat T' ?s) = [] \<and> inflight (advance w lat T' ?s) = []"
  proof
    assume h: "fails (w Rs) GetSession = None \<and> session (w Rs) = Some u \<and>
          (\<forall>r. fails (w Rb) r = None) \<and> Rb \<le> T'"
    have h1: "fails (w Rs) GetSession = None" and h2: "session (w Rs) = Some u"
      and h3: "\<forall>r. fails (w Rb) r = None" and h4: "Rb \<le> T'"
      using h by (rule conjunct1, (rule conjunct2 [THEN conjunct1])+, blast+)
    from waiting_one_write [OF wl assms(6) assms(8) assms(9) h1 h2 h3 h4]
    show "filter is_attempt (since st (advance w lat T' ?s)) = [Attempt F cs 0] \<and>
            writes (since st (advance w lat T' ?s)) =
              (if getIsAdminUser (w Rb) (remote st)
               then [UpsertCategories (categoriesPayload u cs), UpsertProblems (problemsPayload u cs)]
                    @ delete_requests u cs (remote st)
               else [UpsertProgress (progressPayload u cs)]) \<and>
            remote (advance w lat T' ?s) =
              (if getIsAdminUser (w Rb) (remote st) then synced u cs (remote st)
               else (remote st)\<lparr>progress_tbl :=
                      upsert progress_key (progressPayload u cs) (progress_tbl (remote st))\<rparr>) \<and>
            timers (advance w lat T' ?s) = [] \<and> inflight (advance w lat T' ?s) = []"
      by (simp only: writes_body_requests body_requests_effect)
  qed
  show ?thesis by (intro conjI a b c d)
qed

text \<open>
  An instance: a write went out at 1000 ms; two debounced calls come at 1010 and 1050
  ms; every awaited call takes 20 ms, and the signed-in user is no admin. The one
  write is entered at 1150 ms and upserts the progress rows of the second call.
\<close>

theorem rapid_debounced_calls_make_one_write_witness:
  "timers just_saved = [] \<and> inflight just_saved = [] \<and>
   filter is_attempt
     (since just_saved (advance (\<lambda>t. subuser_env) (\<lambda>t. 20) 1150
        (run (\<lambda>t. subuser_env) (\<lambda>t. 20)
           [(1010, arrays_tree, False), (1050, arrays_tree_open, False)] just_saved))) =
     [Attempt 1150 arrays_tree_open 0] \<and>
   writes
     (since just_saved (advance (\<lambda>t. subuser_env) (\<lambda>t. 20) 5000
        (run (\<lambda>t. subuser_env) (\<lambda>t. 20)
           [(1010, arrays_tree, False), (1050, arrays_tree_open, False)] just_saved))) =
     [UpsertProgress (progressPayload ''u1'' arrays_tree_open)]"
proof -
  let ?calls = "[(1010, arrays_tree, False), (1050, arrays_tree_open, False)]"
  have h1: "?calls \<noteq> []" by simp
  have h2: "rapid ?calls" by (simp add: SAVE_DEBOUNCE_MS_def)
  have h3: "\<forall>c \<in> set ?calls. \<not> snd (snd c) \<and> fst c - lastSaveTime just_saved < MIN_SAVE_INTERVAL_MS"
    by (simp add: just_saved_def idle_def MIN_SAVE_INTERVAL_MS_def)
  have h4: "timers just_saved = []" and h5: "inflight just_saved = []"
    by (simp_all add: just_saved_def idle_def)
  have h6: "(1150::int) = fst (last ?calls) + SAVE_DEBOUNCE_MS"
    and h7: "arrays_tree_open = fst (snd (last ?calls))"
    and h8: "(1170::int) = 1150 + int ((\<lambda>t. 20) (1150::int))"
    and h9: "(1190::int) = 1170 + int ((\<lambda>t. 20) (1170::int))"
    by (simp_all add: SAVE_DEBOUNCE_MS_def)
  have na: "\<not> getIsAdminUser subuser_env (remote just_saved)"
    by (simp add: getIsAdminUser_def subuser_env_def just_saved_def idle_def shared_db_def)
  note th = rapid_debounced_calls_make_one_write
      [OF h1 h2 h3 h4 h5 h6 h7 h8 h9, of "\<lambda>t. subuser_env" 1150 "''u1''" 5000]
  have a: "filter is_attempt
     (since just_saved (advance (\<lambda>t. subuser_env) (\<lambda>t. 20) 1150
        (run (\<lambda>t. subuser_env) (\<lambda>t. 20) ?calls just_saved))) = [Attempt 1150 arrays_tree_open 0]"
    using th by (simp add: BASE_DELAY_def)
  have b: "writes
     (since just_saved (advance (\<lambda>t. subuser_env) (\<lambda>t. 20) 5000
        (run (\<lambda>t. subuser_env) (\<lambda>t. 20) ?calls just_saved))) =
     [UpsertProgress (progressPayload ''u1'' arrays_tree_open)]"
    using th na by (simp add: subuser_env_def)
  show ?thesis using h4 h5 a b by simp
qed

text \<open>
  C3 as stated fails when the calls are further apart than the debounce delay: two
  debounced calls 10 ms and 300 ms after the last write, both within the minimum
  interval of 500 ms, make two remote writes, one with each payload.
\<close>

theorem slow_calls_two_writes_counterexample:
  "1010 - lastSaveTime just_saved < MIN_SAVE_INTERVAL_MS \<and>
   1300 - lastSaveTime just_saved < MIN_SAVE_INTERVAL_MS \<and>
   timers just_saved = [] \<and> inflight just_saved = [] \<and>
   filter is_attempt
     (since just_saved (advance (\<lambda>t. subuser_env) (\<lambda>t. 0) 1400
        (run (\<lambda>t. subuser_env) (\<lambda>t. 0)
           [(1010, arrays_tree, False), (1300, arrays_tree_open, False)] just_saved))) =
     [Attempt 1110 arrays_tree 0, Attempt 1400 arrays_tree_open 0] \<and>
   writes
     (since just_saved (advance (\<lambda>t. subuser_env) (\<lambda>t. 0) 1400
        (run (\<lambda>t. subuser_env) (\<lambda>t. 0)
           [(1010, arrays_tree, False), (1300, arrays_tree_open, False)] just_saved))) =
     [UpsertProgress (progressPayload ''u1'' arrays_tree),
      UpsertProgress (progressPayload ''u1'' arrays_tree_open)]"
  by (simp add: loop_eval just_saved_def idle_def subuser_env_def shared_db_def)

text \<open>
  The other conditions of the theorem are needed as well. With nobody signed in, the
  burst enters its one write, which makes no remote write at all.
\<close>

lemma signed_out_burst_writes_nothing:
  "filter is_attempt
     (since just_saved (advance (\<lambda>t. signed_out_env) (\<lambda>t. 20) 5000
        (run (\<lambda>t. signed_out_env) (\<lambda>t. 20)
           [(1010, arrays_tree, False), (1050, arrays_tree_open, False)] just_saved))) =
     [Attempt 1150 arrays_tree_open 0] \<and>
   writes
     (since just_saved (advance (\<lambda>t. signed_out_env) (\<lambda>t. 20) 5000
        (run (\<lambda>t. signed_out_env) (\<lambda>t. 20)
           [(1010, arrays_tree, False), (1050, arrays_tree_open, False)] just_saved))) = []"
  by (simp add: loop_eval just_saved_def idle_def signed_out_env_def shared_db_def)

text \<open>
  With a write in flight when the burst begins, the burst can make two writes. A save
  entered at 1000 ms has its session at 1050 ms, and its upsert is refused at 1100 ms,
  which resets \<^verbatim>\<open>lastSaveTime\<close>. Three debounced calls at 1060, 1120 and 1150 ms, each
  within 500 ms of \<^verbatim>\<open>lastSaveTime\<close> as the burst finds it and each less than 100 ms
  after the one before, enter two writes, with the payloads of the second and the third
  call.
\<close>

lemma burst_during_failing_write_writes_twice:
  "lastSaveTime (advance refusal_world (\<lambda>t. 50) 1055
      (run refusal_world (\<lambda>t. 50) [(1000, arrays_tree_open, False)] (idle shared_db))) = 1050 \<and>
   timers (advance refusal_world (\<lambda>t. 50) 1055
      (run refusal_world (\<lambda>t. 50) [(1000, arrays_tree_open, False)] (idle shared_db))) = [] \<and>
   inflight (advance refusal_world (\<lambda>t. 50) 1055
      (run refusal_world (\<lambda>t. 50) [(1000, arrays_tree_open, False)] (idle shared_db))) =
     [\<lparr>ready = 1100, w_categories = arrays_tree_open, w_retryCount = 0, w_stage = Body ''u1''\<rparr>] \<and>
   filter is_attempt
     (since
        (advance refusal_world (\<lambda>t. 50) 1055
           (run refusal_world (\<lambda>t. 50) [(1000, arrays_tree_open, False)] (idle shared_db)))
        (advance refusal_world (\<lambda>t. 50) 5000
           (run refusal_world (\<lambda>t. 50)
              [(1060, arrays_tree, False), (1120, arrays_tree_open, False), (1150, arrays_tree, False)]
              (advance refusal_world (\<lambda>t. 50) 1055
                 (run refusal_world (\<lambda>t. 50) [(1000, arrays_tree_open, False)] (idle shared_db)))))) =
     [Attempt 1120 arrays_tree_open 0, Attempt 1150 arrays_tree 0]"
proof -
  have s: "advance refusal_world (\<lambda>t. 50) 1055
      (run refusal_world (\<lambda>t. 50) [(1000, arrays_tree_open, False)] (idle shared_db)) =
     \<lparr>localStorage = Snapshot arrays_tree_open, saveTimeout = None, lastSaveTime = 1050,
      timers = [], nextHandle = 1, remote = shared_db,
      trace = [SetItem arrays_tree_open, Attempt 1000 arrays_tree_open 0, Remote GetSession],
      inflight = [\<lparr>ready = 1100, w_categories = arrays_tree_open, w_retryCount = 0,
                   w_stage = Body ''u1''\<rparr>]\<rparr>"
    by (simp add: loop_eval refusal_world_def rate_limited_env_def subuser_env_def idle_def
          shared_db_def)
  show ?thesis
    unfolding s
    by (simp add: loop_eval refusal_world_def rate_limited_env_def subuser_env_def shared_db_def)
qed

subsection \<open>C4: an admin save is idempotent\<close>

text \<open>
  C4. Let the admin \<open>u\<close> save the tree \<open>categories\<close> with no call failing, and then
  save the same tree again. After the first save the ids of the rows of \<open>u\<close> are
  exactly the ids of the tree, in both tables. The second save leaves the remote
  store as the first one left it; it makes no delete call; and its upsert calls are
  the two every admin save makes, with the payloads of the first save and no other.
\<close>

theorem admin_save_idempotent:
  assumes "session e = Some u" and "getIsAdminUser e (remote st)" and "\<forall>r. fails e r = None"
  shows "cr_id ` {x \<in> set (categories_tbl (remote (saveDataToSupabase e now categories k st))).
                   cr_user_id x = u} = desiredCategoryIds categories \<and>
         pr_id ` {x \<in> set (problems_tbl (remote (saveDataToSupabase e now categories k st))).
                   pr_user_id x = u} = desiredProblemIds categories \<and>
         remote (saveDataToSupabase e now' categories k' (saveDataToSupabase e now categories k st)) =
           remote (saveDataToSupabase e now categories k st) \<and>
         filter is_delete (since (saveDataToSupabase e now categories k st)
            (saveDataToSupabase e now' categories k' (saveDataToSupabase e now categories k st))) = [] \<and>
         filter is_upsert (since (saveDataToSupabase e now categories k st)
            (saveDataToSupabase e now' categories k' (saveDataToSupabase e now categories k st))) =
           [Remote (UpsertCategories (categoriesPayload u categories)),
            Remote (UpsertProblems (problemsPayload u categories))] \<and>
         filter is_upsert (since st (saveDataToSupabase e now categories k st)) =
           [Remote (UpsertCategories (categoriesPayload u categories)),
            Remote (UpsertProblems (problemsPayload u categories))]"
proof -
  let ?st1 = "saveDataToSupabase e now categories k st"
  let ?st2 = "saveDataToSupabase e now' categories k' ?st1"
  let ?db1 = "synced u categories (remote st)"
  have eq1: "?st1 =
     st\<lparr>lastSaveTime := now, remote := ?db1,
        trace := trace st @ Attempt now categories k # Remote GetSession #
                   map Remote (admin_requests u categories (remote st))\<rparr>"
    using assms(1-3) by (rule saveDataToSupabase_admin)
  have r1: "remote ?st1 = ?db1" by (simp add: eq1)
  have adm1: "getIsAdminUser e (remote ?st1)" using assms(2) by (simp add: r1)
  have eq2: "?st2 =
     ?st1\<lparr>lastSaveTime := now', remote := synced u categories (remote ?st1),
        trace := trace ?st1 @ Attempt now' categories k' # Remote GetSession #
                   map Remote (admin_requests u categories (remote ?st1))\<rparr>"
    using assms(1) adm1 assms(3) by (rule saveDataToSupabase_admin)
  have a: "cr_id ` {x \<in> set (categories_tbl (remote ?st1)). cr_user_id x = u} =
      desiredCategoryIds categories"
    unfolding r1 by (rule synced_owner_ids)
  have b: "pr_id ` {x \<in> set (problems_tbl (remote ?st1)). pr_user_id x = u} =
      desiredProblemIds categories"
    unfolding r1 by (rule synced_owner_ids)
  have "remote ?st2 = synced u categories (remote ?st1)" by (subst eq2) simp
  then have c: "remote ?st2 = remote ?st1"
    unfolding r1 by (simp add: synced_twice)
  have s2: "since ?st1 ?st2 = Attempt now' categories k' # Remote GetSession #
                   map Remote (admin_requests u categories (remote ?st1))"
    by (rule since_append) (subst eq2, simp)
  have "delete_requests u categories (remote ?st1) = []"
    unfolding r1 by (simp add: delete_requests_def synced_nothing_to_delete)
  then have d: "filter is_delete (since ?st1 ?st2) = []"
    unfolding s2 by (simp add: admin_requests_eq)
  have f: "filter is_upsert (since ?st1 ?st2) =
           [Remote (UpsertCategories (categoriesPayload u categories)),
            Remote (UpsertProblems (problemsPayload u categories))]"
    unfolding s2 by (simp add: is_upsert_admin_requests)
  have "since st ?st1 = Attempt now categories k # Remote GetSession #
                   map Remote (admin_requests u categories (remote st))"
    by (rule since_append) (subst eq1, simp)
  then have g: "filter is_upsert (since st ?st1) =
           [Remote (UpsertCategories (categoriesPayload u categories)),
            Remote (UpsertProblems (problemsPayload u categories))]"
    by (simp add: is_upsert_admin_requests)
  show ?thesis by (intro conjI a b c d f g)
qed

theorem admin_save_idempotent_witness:
  "getIsAdminUser admin_env (remote (idle two_db)) \<and>
   remote (saveDataToSupabase admin_env 2000 arrays_tree 0
             (saveDataToSupabase admin_env 1000 arrays_tree 0 (idle two_db))) =
     remote (saveDataToSupabase admin_env 1000 arrays_tree 0 (idle two_db)) \<and>
   filter is_delete (since (saveDataToSupabase admin_env 1000 arrays_tree 0 (idle two_db))
      (saveDataToSupabase admin_env 2000 arrays_tree 0
         (saveDataToSupabase admin_env 1000 arrays_tree 0 (idle two_db)))) = [] \<and>
   cr_id ` {x \<in> set (categories_tbl (remote (saveDataToSupabase admin_env 1000 arrays_tree 0 (idle two_db)))).
            cr_user_id x = ''admin''} = {''c1''}"
proof -
  have h1: "session admin_env = Some ''admin''" by (simp add: admin_env_def)
  have h2: "getIsAdminUser admin_env (remote (idle two_db))"
    by (simp add: getIsAdminUser_def admin_env_def idle_def two_db_def)
  have h3: "\<forall>r. fails admin_env r = None" by (simp add: admin_env_def)
  have d: "desiredCategoryIds arrays_tree = {''c1''}"
    by (simp add: desiredCategoryIds_def arrays_tree_def)
  note th = admin_save_idempotent [OF h1 h2 h3, of 1000 arrays_tree 0 2000 0]
  show ?thesis using th h2 d by simp
qed

subsection \<open>C5: which failed writes are retried\<close>

text \<open>
  C5 does not hold of the code. The \<^verbatim>\<open>catch\<close> block retries only when
  \<^verbatim>\<open>e instanceof Error\<close>, while a failed remote write throws the error object the
  client returned (\<^verbatim>\<open>throw categoriesError\<close>, \<^verbatim>\<open>throw uppError\<close>, ...), which is no
  instance of \<^verbatim>\<open>Error\<close>. For every error that is no instance of \<^verbatim>\<open>Error\<close>,
  whatever its message and whatever the retry count, the \<^verbatim>\<open>catch\<close> block sets no
  timer and only resets \<^verbatim>\<open>lastSaveTime\<close>; a write that throws such an error is
  entered once, leaves the timers as they were, and is not retried.
\<close>

theorem returned_error_is_not_retried:
  assumes "\<not> is_Error err"
  shows "catch_block now cs k err st = st\<lparr>lastSaveTime := 0\<rparr> \<and>
         (fst (save_try e now cs (emit (Attempt now cs k) st)) = Some err \<longrightarrow>
            timers (saveDataToSupabase e now cs k st) = timers st \<and>
            lastSaveTime (saveDataToSupabase e now cs k st) = 0 \<and>
            filter is_attempt (since st (saveDataToSupabase e now cs k st)) = [Attempt now cs k])"
proof -
  have r: "\<not> (k < MAX_RETRIES \<and> retryable err)" using assms by (simp add: retryable_def)
  then have a: "catch_block now cs k err st = st\<lparr>lastSaveTime := 0\<rparr>"
    by (auto simp: catch_block_eq)
  have b: "fst (save_try e now cs (emit (Attempt now cs k) st)) = Some err \<longrightarrow>
            timers (saveDataToSupabase e now cs k st) = timers st \<and>
            lastSaveTime (saveDataToSupabase e now cs k st) = 0 \<and>
            filter is_attempt (since st (saveDataToSupabase e now cs k st)) = [Attempt now cs k]"
  proof
    assume "fst (save_try e now cs (emit (Attempt now cs k) st)) = Some err"
    from saveDataToSupabase_give_up [OF this r] obtain rs db where
      eq: "saveDataToSupabase e now cs k st =
        st\<lparr>lastSaveTime := 0, remote := db,
           trace := trace st @ Attempt now cs k # map Remote (GetSession # rs)\<rparr>"
      by blast
    have "since st (saveDataToSupabase e now cs k st) = Attempt now cs k # map Remote (GetSession # rs)"
      by (rule since_append) (simp add: eq)
    then show "timers (saveDataToSupabase e now cs k st) = timers st \<and>
            lastSaveTime (saveDataToSupabase e now cs k st) = 0 \<and>
            filter is_attempt (since st (saveDataToSupabase e now cs k st)) = [Attempt now cs k]"
      by (simp add: eq)
  qed
  show ?thesis by (intro conjI a b)
qed

text \<open>
  The failing input: a signed-in sub-user saves a tree, and the progress upsert comes
  back with the error object \<^verbatim>\<open>{ message: 'Request rate limit reached' }\<close>. The
  message names a rate limit, the upsert has been sent once, and no retry is scheduled:
  no timer is pending, \<^verbatim>\<open>lastSaveTime\<close> is 0, and in the event loop the write entered
  at 1000 ms is still the only one 100 s later.
\<close>

theorem returned_error_is_not_retried_witness:
  "\<not> is_Error \<lparr>is_Error = False, message = ''Request rate limit reached''\<rparr> \<and>
   message_includes ''Request rate limit reached'' ''rate limit'' \<and>
   fst (save_try rate_limited_env 1000 arrays_tree (emit (Attempt 1000 arrays_tree 0) (idle shared_db))) =
     Some \<lparr>is_Error = False, message = ''Request rate limit reached''\<rparr> \<and>
   writes (since (idle shared_db) (saveDataToSupabase rate_limited_env 1000 arrays_tree 0 (idle shared_db))) =
     [UpsertProgress (progressPayload ''u1'' arrays_tree)] \<and>
   timers (saveDataToSupabase rate_limited_env 1000 arrays_tree 0 (idle shared_db)) = [] \<and>
   lastSaveTime (saveDataToSupabase rate_limited_env 1000 arrays_tree 0 (idle shared_db)) = 0 \<and>
   filter is_attempt
     (since (idle shared_db)
        (advance (\<lambda>t. rate_limited_env) (\<lambda>t. 0) 101000
           (call (\<lambda>t. rate_limited_env) (\<lambda>t. 0) 1000 arrays_tree True (idle shared_db)))) =
     [Attempt 1000 arrays_tree 0]"
proof -
  let ?err = "\<lparr>is_Error = False, message = ''Request rate limit reached''\<rparr>"
  have h: "\<not> is_Error ?err" by simp
  have m: "message_includes ''Request rate limit reached'' ''rate limit''" by simp
  have f: "fst (save_try rate_limited_env 1000 arrays_tree (emit (Attempt 1000 arrays_tree 0) (idle shared_db))) =
     Some ?err"
    by (simp add: save_try_def do_request_def emit_def getIsAdminUser_def rate_limited_env_def
          idle_def shared_db_def)
  note th = returned_error_is_not_retried [OF h, of 1000 arrays_tree 0 "idle shared_db" rate_limited_env]
  have a: "timers (saveDataToSupabase rate_limited_env 1000 arrays_tree 0 (idle shared_db)) = timers (idle shared_db)"
    and b: "lastSaveTime (saveDataToSupabase rate_limited_env 1000 arrays_tree 0 (idle shared_db)) = 0"
    using th f by blast+
  have w: "writes (since (idle shared_db) (saveDataToSupabase rate_limited_env 1000 arrays_tree 0 (idle shared_db))) =
     [UpsertProgress (progressPayload ''u1'' arrays_tree)]"
    by (simp add: saveDataToSupabase_def save_try_def do_request_def emit_def getIsAdminUser_def
          rate_limited_env_def idle_def shared_db_def retryable_def since_def)
  have l: "filter is_attempt
     (since (idle shared_db)
        (advance (\<lambda>t. rate_limited_env) (\<lambda>t. 0) 101000
           (call (\<lambda>t. rate_limited_env) (\<lambda>t. 0) 1000 arrays_tree True (idle shared_db)))) =
     [Attempt 1000 arrays_tree 0]"
    by (simp add: loop_eval rate_limited_env_def idle_def shared_db_def)
  show ?thesis using h m f a b w l by (simp add: idle_def)
qed

subsection \<open>C6: loadData always returns a catalog\<close>

text \<open>
  C6. \<open>loadData\<close> never throws: for every session state, every pattern of remote
  failures and every content of the local slot it returns a category list. When
  every remote fetch fails and the local cache is empty (nothing stored, or a stored
  empty list) and readable, the list returned is the bundled sample catalog, which is
  not empty.
\<close>

theorem loadData_always_returns:
  "(\<exists>categories. loadData e db s = Inr categories) \<and>
   ((\<forall>r. is_fetch r \<longrightarrow> fails e r \<noteq> None) \<and> \<not> getItem_throws e \<and>
    (s = Absent \<or> s = Snapshot []) \<longrightarrow>
      loadData e db s = Inr sample_catalog \<and> sample_catalog \<noteq> [])"
proof
  show "\<exists>categories. loadData e db s = Inr categories"
    by (simp add: loadData_def split: sum.splits option.splits)
next
  show "(\<forall>r. is_fetch r \<longrightarrow> fails e r \<noteq> None) \<and> \<not> getItem_throws e \<and>
    (s = Absent \<or> s = Snapshot []) \<longrightarrow>
      loadData e db s = Inr sample_catalog \<and> sample_catalog \<noteq> []"
  proof
    assume h: "(\<forall>r. is_fetch r \<longrightarrow> fails e r \<noteq> None) \<and> \<not> getItem_throws e \<and>
      (s = Absent \<or> s = Snapshot [])"
    then have nr: "\<forall>cs. load_remote e db \<noteq> Inr (Some cs)"
      using load_remote_fetch_fails by blast
    have loc: "load_local e s = Inr sample_catalog"
      using h by (auto simp: load_local_def)
    have "loadData e db s = Inr sample_catalog"
      using nr loc by (simp add: loadData_def split: sum.splits option.splits)
    then show "loadData e db s = Inr sample_catalog \<and> sample_catalog \<noteq> []"
      by (simp add: sample_catalog_def)
  qed
qed

theorem loadData_always_returns_witness:
  "session offline_env = Some ''u1'' \<and> \<not> getItem_throws offline_env \<and>
   loadData offline_env empty_db Absent = Inr sample_catalog \<and> sample_catalog \<noteq> []"
proof -
  have h: "(\<forall>r. is_fetch r \<longrightarrow> fails offline_env r \<noteq> None) \<and> \<not> getItem_throws offline_env"
    by (simp add: offline_env_def)
  have "session offline_env = Some ''u1''" by (simp add: offline_env_def)
  then show ?thesis using h loadData_always_returns [of offline_env empty_db Absent] by simp
qed

subsection \<open>C7: the local slot is written first\<close>

text \<open>
  C7, as the code has it. In every call of \<^verbatim>\<open>saveData\<close> in which
  \<^verbatim>\<open>localStorage.setItem\<close> does not throw, the first thing the call does is to store
  the full snapshot in the local slot, before any timer is touched and before any
  remote call, whatever the session is and whether the remote write is forced,
  deferred or failing; the slot holds the snapshot when the call returns, and already
  when the call reaches its first \<^verbatim>\<open>await\<close>. A following \<^verbatim>\<open>loadData\<close> with the
  remote failing (every fetch fails, or the session lookup throws, or there is no
  session) and the slot readable returns that snapshot when it is not empty, and the
  bundled sample catalog when it is the empty list.
\<close>

theorem save_writes_local_slot_first:
  assumes "\<not> setItem_throws e"
  shows "localStorage (saveData e now categories forceImmediate st) = Snapshot categories \<and>
         (\<exists>post. since st (saveData e now categories forceImmediate st) = SetItem categories # post) \<and>
         localStorage (saveData_start e now l categories forceImmediate st) = Snapshot categories \<and>
         (((\<forall>r. is_fetch r \<longrightarrow> fails e' r \<noteq> None) \<or> fails e' GetSession \<noteq> None \<or>
           session e' = None) \<and> \<not> getItem_throws e' \<longrightarrow>
            loadData e' db' (localStorage (saveData e now categories forceImmediate st)) =
              Inr (if categories = [] then sample_catalog else categories))"
proof -
  let ?st' = "saveData e now categories forceImmediate st"
  from saveData_frame [of e now categories forceImmediate st] assms obtain post where
    ls: "localStorage ?st' = Snapshot categories"
    and tr: "trace ?st' = trace st @ save_prefix e categories st @ post"
    by auto
  have "save_prefix e categories st @ post =
      SetItem categories # (case saveTimeout st of Some h \<Rightarrow> [ClearTimeout h] | None \<Rightarrow> []) @ post"
    using assms by (simp add: save_prefix_def)
  then have ev: "\<exists>post. since st ?st' = SetItem categories # post"
    using since_append [OF tr] by simp
  have la: "localStorage (saveData_start e now l categories forceImmediate st) = Snapshot categories"
    using assms by (simp add: saveData_start_unfold enter_eq cleared_eq)
  have ld: "((\<forall>r. is_fetch r \<longrightarrow> fails e' r \<noteq> None) \<or> fails e' GetSession \<noteq> None \<or>
           session e' = None) \<and> \<not> getItem_throws e' \<longrightarrow>
            loadData e' db' (localStorage ?st') =
              Inr (if categories = [] then sample_catalog else categories)"
  proof
    assume h: "((\<forall>r. is_fetch r \<longrightarrow> fails e' r \<noteq> None) \<or> fails e' GetSession \<noteq> None \<or>
           session e' = None) \<and> \<not> getItem_throws e'"
    then have nr: "\<forall>cs. load_remote e' db' \<noteq> Inr (Some cs)"
      using load_remote_unavailable by blast
    have "load_local e' (Snapshot categories) =
        Inr (if categories = [] then sample_catalog else categories)"
      using h load_local_snapshot by blast
    then show "loadData e' db' (localStorage ?st') =
              Inr (if categories = [] then sample_catalog else categories)"
      using loadData_fallback [OF nr] by (simp add: ls)
  qed
  show ?thesis by (intro conjI ls ev la ld)
qed

text \<open>
  An instance: a signed-in user whose every fetch fails saves a tree of one category;
  the slot holds the tree, and the load that follows returns it.
\<close>

theorem save_writes_local_slot_first_witness:
  "\<not> setItem_throws offline_env \<and>
   localStorage (saveData offline_env 1000 arrays_tree False (idle shared_db)) = Snapshot arrays_tree \<and>
   loadData offline_env shared_db
     (localStorage (saveData offline_env 1000 arrays_tree False (idle shared_db))) = Inr arrays_tree"
proof -
  have h: "\<not> setItem_throws offline_env" by (simp add: offline_env_def)
  have f: "((\<forall>r. is_fetch r \<longrightarrow> fails offline_env r \<noteq> None) \<or> fails offline_env GetSession \<noteq> None \<or>
           session offline_env = None) \<and> \<not> getItem_throws offline_env"
    by (simp add: offline_env_def)
  have n: "arrays_tree \<noteq> []" by (simp add: arrays_tree_def)
  note th = save_writes_local_slot_first
      [OF h, of 1000 arrays_tree False "idle shared_db" 0 offline_env shared_db]
  have a: "localStorage (saveData offline_env 1000 arrays_tree False (idle shared_db)) =
      Snapshot arrays_tree"
    using th by blast
  have b: "loadData offline_env shared_db
     (localStorage (saveData offline_env 1000 arrays_tree False (idle shared_db))) =
       Inr (if arrays_tree = [] then sample_catalog else arrays_tree)"
    using th f by blast
  show ?thesis using h a b n by simp
qed

text \<open>
  C7 as stated fails for the empty tree. A signed-in user whose every fetch fails
  saves the empty list: the slot is written with \<^verbatim>\<open>[]\<close>, and the load that follows,
  with the remote still failing, returns the bundled sample catalog, which is not that
  snapshot.
\<close>

theorem save_then_offline_load_counterexample:
  "session offline_env = Some ''u1'' \<and>
   fails offline_env (SelectCategories None) \<noteq> None \<and>
   localStorage (saveData offline_env 1000 [] True (idle empty_db)) = Snapshot [] \<and>
   loadData offline_env empty_db
     (localStorage (saveData offline_env 1000 [] True (idle empty_db))) = Inr sample_catalog \<and>
   sample_catalog \<noteq> []"
proof -
  have h: "\<not> setItem_throws offline_env" by (simp add: offline_env_def)
  have ls: "localStorage (saveData offline_env 1000 [] True (idle empty_db)) = Snapshot []"
    using saveData_frame [of offline_env 1000 "[]" True "idle empty_db"] h by auto
  have f: "\<forall>r. is_fetch r \<longrightarrow> fails offline_env r \<noteq> None"
    by (simp add: offline_env_def)
  have "\<forall>cs. load_remote offline_env empty_db \<noteq> Inr (Some cs)"
    using load_remote_fetch_fails [OF f] by blast
  then have "loadData offline_env empty_db (Snapshot []) = Inr sample_catalog"
    by (rule loadData_fallback) (simp add: load_local_def offline_env_def)
  then show ?thesis using ls by (simp add: sample_catalog_def offline_env_def)
qed

subsection \<open>C8: a sub-user's save writes only that user's progress rows\<close>

text \<open>
  C8. When the session user is not an admin, a save writes or deletes no category row
  and no problem row, whether it is the remote write itself (first attempt or retry)
  or a call of \<^verbatim>\<open>saveData\<close> (forced, immediate or deferred). The only writing call
  is one upsert into \<^verbatim>\<open>user_problem_progress\<close>; it is made whenever the session
  lookup succeeds; every row of its payload carries the caller's user id; the payload
  has one row per problem of the tree, in the tree's order; progress rows of other
  users stay as they are.
\<close>

theorem subuser_save_writes_only_own_progress:
  assumes "session e = Some u" and "\<not> getIsAdminUser e (remote st)"
  shows "only_own_progress u categories st (saveDataToSupabase e now categories k st) \<and>
         only_own_progress u categories st (saveData e now categories forceImmediate st) \<and>
         (fails e GetSession = None \<longrightarrow>
            writes (since st (saveDataToSupabase e now categories k st)) =
              [UpsertProgress (progressPayload u categories)]) \<and>
         (\<forall>row \<in> set (progressPayload u categories). up_user_id row = u) \<and>
         map up_problem_id (progressPayload u categories) =
           concat (map (\<lambda>c. map p_id (c_problems c)) categories)"
proof -
  let ?st1 = "setItem e categories st"
  let ?st2 = "case saveTimeout ?st1 of Some h \<Rightarrow> clearTimeout h ?st1 | None \<Rightarrow> ?st1"
  obtain ls tms where st2: "?st2 = st\<lparr>localStorage := ls, timers := tms,
       trace := trace st @ save_prefix e categories st\<rparr>"
    using prefix_state [of e categories st] by blast
  have a: "only_own_progress u categories st (saveDataToSupabase e now categories k st)"
    using only_own_progress_saveDataToSupabase [OF assms, of st "[]" categories now k] by simp
  have r2: "remote ?st2 = remote st" and t2: "trace ?st2 = trace st @ save_prefix e categories st"
    by (simp_all add: st2)
  have na: "\<not> getIsAdminUser e (remote ?st2)" using assms(2) r2 by simp
  have direct: "only_own_progress u categories st (saveDataToSupabase e now categories 0 ?st2)"
    using only_own_progress_saveDataToSupabase [OF assms(1) na r2 t2, of categories now 0] by simp
  have deferred: "only_own_progress u categories st
      (case setTimeout now SAVE_DEBOUNCE_MS categories 0 ?st2 of (h, st3) \<Rightarrow> st3\<lparr>saveTimeout := Some h\<rparr>)"
    unfolding st2 by (simp add: only_own_progress_def setTimeout_def emit_def since_def)
  have b: "only_own_progress u categories st (saveData e now categories forceImmediate st)"
    using direct deferred by (simp add: saveData_def Let_def)
  have c: "fails e GetSession = None \<longrightarrow>
            writes (since st (saveDataToSupabase e now categories k st)) =
              [UpsertProgress (progressPayload u categories)]"
  proof
    assume ok: "fails e GetSession = None"
    from saveDataToSupabase_subuser [OF assms, of now categories k]
    obtain lst tms nh ptbl evs where
      eq: "saveDataToSupabase e now categories k st =
        st\<lparr>lastSaveTime := lst, timers := tms, nextHandle := nh,
           remote := (remote st)\<lparr>progress_tbl := ptbl\<rparr>, trace := trace st @ evs\<rparr>"
      and w: "writes evs = (if fails e GetSession = None
                 then [UpsertProgress (progressPayload u categories)] else [])"
      by blast
    show "writes (since st (saveDataToSupabase e now categories k st)) =
              [UpsertProgress (progressPayload u categories)]"
      using w ok by (simp add: eq since_def)
  qed
  show ?thesis
    using a b c progressPayload_user [of u categories] progressPayload_problems [of u categories]
    by blast
qed

theorem subuser_save_writes_only_own_progress_witness:
  "session subuser_env = Some ''u1'' \<and> \<not> getIsAdminUser subuser_env (remote (idle shared_db)) \<and>
   only_own_progress ''u1'' arrays_tree (idle shared_db)
     (saveData subuser_env 1000 arrays_tree True (idle shared_db)) \<and>
   writes (since (idle shared_db) (saveDataToSupabase subuser_env 1000 arrays_tree 0 (idle shared_db)))
     = [UpsertProgress [\<lparr>up_user_id = ''u1'', up_problem_id = ''p1'',
                         up_completed = True, up_note = None\<rparr>]]"
proof -
  have h1: "session subuser_env = Some ''u1''" by (simp add: subuser_env_def)
  have h2: "\<not> getIsAdminUser subuser_env (remote (idle shared_db))"
    by (simp add: getIsAdminUser_def subuser_env_def idle_def shared_db_def)
  have h3: "fails subuser_env GetSession = None" by (simp add: subuser_env_def)
  have p: "progressPayload ''u1'' arrays_tree =
     [\<lparr>up_user_id = ''u1'', up_problem_id = ''p1'', up_completed = True, up_note = None\<rparr>]"
    by (simp add: progressPayload_def arrays_tree_def)
  show ?thesis
    using subuser_save_writes_only_own_progress [OF h1 h2, of arrays_tree 1000 0 True] h1 h2 h3 p
    by simp
qed

subsection \<open>C9: a forced save writes at once\<close>

text \<open>
  C9. A call \<^verbatim>\<open>saveData(categories, true)\<close> enters \<^verbatim>\<open>saveDataToSupabase\<close> in the call
  itself, with the given payload and retry count 0, whatever \<^verbatim>\<open>lastSaveTime\<close> is: no
  hypothesis below mentions it, and no timer is set. Run to its end for a signed-in
  user \<open>u\<close> whose calls succeed, the call makes the remote writes of a save of that
  payload (a sub-user's upsert of the progress payload, or an admin's two upserts and
  deletes), leaves the tables those writes give, and assigns \<^verbatim>\<open>lastSaveTime\<close>. Not
  awaited, the call returns with the write entered and in flight, carrying the payload;
  and when nothing else is pending, the session lookup resolving at \<open>Rs\<close> and the
  body ending at \<open>Rb\<close> both succeed, the same remote writes have been made from
  \<open>Rb\<close> on, and no other.
\<close>

theorem forceImmediate_bypasses_debounce:
  "(\<exists>post. since st (saveData e now cs True st) =
             save_prefix e cs st @ Attempt now cs 0 # Remote GetSession # post) \<and>
   (session e = Some u \<and> (\<forall>r. fails e r = None) \<longrightarrow>
      writes (since st (saveData e now cs True st)) =
        (if getIsAdminUser e (remote st)
         then [UpsertCategories (categoriesPayload u cs), UpsertProblems (problemsPayload u cs)]
              @ delete_requests u cs (remote st)
         else [UpsertProgress (progressPayload u cs)]) \<and>
      remote (saveData e now cs True st) =
        (if getIsAdminUser e (remote st) then synced u cs (remote st)
         else (remote st)\<lparr>progress_tbl :=
                upsert progress_key (progressPayload u cs) (progress_tbl (remote st))\<rparr>) \<and>
      lastSaveTime (saveData e now cs True st) = now) \<and>
   since st (saveData_start e now l cs True st) = save_prefix e cs st @ [Attempt now cs 0] \<and>
   timers (saveData_start e now l cs True st) = timers (cleared e cs st) \<and>
   inflight (saveData_start e now l cs True st) =
     inflight st @ [\<lparr>ready = now + int l, w_categories = cs, w_retryCount = 0, w_stage = Lookup\<rparr>] \<and>
   (timers st = [] \<and> inflight st = [] \<and> Rs = t + int (lat t) \<and> Rb = Rs + int (lat Rs) \<and>
    fails (w Rs) GetSession = None \<and> session (w Rs) = Some u \<and> (\<forall>r. fails (w Rb) r = None) \<and>
    Rb \<le> T \<longrightarrow>
      filter is_attempt (since st (advance w lat T (call w lat t cs True st))) = [Attempt t cs 0] \<and>
      writes (since st (advance w lat T (call w lat t cs True st))) =
        (if getIsAdminUser (w Rb) (remote st)
         then [UpsertCategories (categoriesPayload u cs), UpsertProblems (problemsPayload u cs)]
              @ delete_requests u cs (remote st)
         else [UpsertProgress (progressPayload u cs)]))"
proof -
  let ?c = "cleared e cs st"
  have a: "\<exists>post. since st (saveData e now cs True st) =
             save_prefix e cs st @ Attempt now cs 0 # Remote GetSession # post"
  proof -
    from saveDataToSupabase_shape [of e now cs 0 ?c] obtain evs db lst tms nh where
      "saveDataToSupabase e now cs 0 ?c =
         ?c\<lparr>lastSaveTime := lst, timers := tms, nextHandle := nh, remote := db,
            trace := trace ?c @ Attempt now cs 0 # Remote GetSession # evs\<rparr>"
      by blast
    then have "trace (saveData e now cs True st) =
        trace st @ (save_prefix e cs st @ Attempt now cs 0 # Remote GetSession # evs)"
      by (simp add: saveData_unfold) (simp add: cleared_eq)
    then show ?thesis using since_append by blast
  qed
  have b: "session e = Some u \<and> (\<forall>r. fails e r = None) \<longrightarrow>
      writes (since st (saveData e now cs True st)) =
        (if getIsAdminUser e (remote st)
         then [UpsertCategories (categoriesPayload u cs), UpsertProblems (problemsPayload u cs)]
              @ delete_requests u cs (remote st)
         else [UpsertProgress (progressPayload u cs)]) \<and>
      remote (saveData e now cs True st) =
        (if getIsAdminUser e (remote st) then synced u cs (remote st)
         else (remote st)\<lparr>progress_tbl :=
                upsert progress_key (progressPayload u cs) (progress_tbl (remote st))\<rparr>) \<and>
      lastSaveTime (saveData e now cs True st) = now"
  proof
    assume h: "session e = Some u \<and> (\<forall>r. fails e r = None)"
    then have hs: "session e = Some u" and hf: "\<forall>r. fails e r = None" by blast+
    have rc: "remote ?c = remote st" and tc: "trace ?c = trace st @ save_prefix e cs st"
      by (simp_all add: cleared_eq)
    let ?rs = "body_requests e u cs (remote st)"
    have eq: "saveData e now cs True st =
       ?c\<lparr>lastSaveTime := now, remote := fold apply_request ?rs (remote st),
          trace := trace st @ (save_prefix e cs st @ Attempt now cs 0 # Remote GetSession # map Remote ?rs)\<rparr>"
      using saveDataToSupabase_ok [OF hs hf, of now cs 0 ?c] rc tc by (simp add: saveData_unfold)
    have "since st (saveData e now cs True st) =
        save_prefix e cs st @ Attempt now cs 0 # Remote GetSession # map Remote ?rs"
      by (rule since_append) (simp add: eq)
    then have "writes (since st (saveData e now cs True st)) = filter is_write ?rs"
      by (simp add: writes_requests)
    moreover have "remote (saveData e now cs True st) = fold apply_request ?rs (remote st)"
      and "lastSaveTime (saveData e now cs True st) = now"
      by (simp_all add: eq)
    ultimately show "writes (since st (saveData e now cs True st)) =
        (if getIsAdminUser e (remote st)
         then [UpsertCategories (categoriesPayload u cs), UpsertProblems (problemsPayload u cs)]
              @ delete_requests u cs (remote st)
         else [UpsertProgress (progressPayload u cs)]) \<and>
      remote (saveData e now cs True st) =
        (if getIsAdminUser e (remote st) then synced u cs (remote st)
         else (remote st)\<lparr>progress_tbl :=
                upsert progress_key (progressPayload u cs) (progress_tbl (remote st))\<rparr>) \<and>
      lastSaveTime (saveData e now cs True st) = now"
      by (simp only: writes_body_requests body_requests_effect)
  qed
  have st: "saveData_start e now l cs True st = enter now l cs 0 ?c"
    by (simp add: saveData_start_unfold)
  have c: "since st (saveData_start e now l cs True st) = save_prefix e cs st @ [Attempt now cs 0]"
    by (rule since_append) (simp add: st enter_eq cleared_eq)
  have d: "timers (saveData_start e now l cs True st) = timers ?c"
    by (simp add: st enter_eq)
  have i: "inflight (saveData_start e now l cs True st) =
     inflight st @ [\<lparr>ready = now + int l, w_categories = cs, w_retryCount = 0, w_stage = Lookup\<rparr>]"
    by (simp add: st enter_eq cleared_eq)
  have f: "timers st = [] \<and> inflight st = [] \<and> Rs = t + int (lat t) \<and> Rb = Rs + int (lat Rs) \<and>
    fails (w Rs) GetSession = None \<and> session (w Rs) = Some u \<and> (\<forall>r. fails (w Rb) r = None) \<and>
    Rb \<le> T \<longrightarrow>
      filter is_attempt (since st (advance w lat T (call w lat t cs True st))) = [Attempt t cs 0] \<and>
      writes (since st (advance w lat T (call w lat t cs True st))) =
        (if getIsAdminUser (w Rb) (remote st)
         then [UpsertCategories (categoriesPayload u cs), UpsertProblems (problemsPayload u cs)]
              @ delete_requests u cs (remote st)
         else [UpsertProgress (progressPayload u cs)])"
  proof
    assume h: "timers st = [] \<and> inflight st = [] \<and> Rs = t + int (lat t) \<and> Rb = Rs + int (lat Rs) \<and>
      fails (w Rs) GetSession = None \<and> session (w Rs) = Some u \<and> (\<forall>r. fails (w Rb) r = None) \<and>
      Rb \<le> T"
    note tm = h [THEN conjunct1]
    note h1 = h [THEN conjunct2]
    note fl = h1 [THEN conjunct1]
    note h2 = h1 [THEN conjunct2]
    note Rs = h2 [THEN conjunct1]
    note h3 = h2 [THEN conjunct2]
    note Rb = h3 [THEN conjunct1]
    note h4 = h3 [THEN conjunct2]
    note oks = h4 [THEN conjunct1]
    note h5 = h4 [THEN conjunct2]
    note u = h5 [THEN conjunct1]
    note h6 = h5 [THEN conjunct2]
    note okb = h6 [THEN conjunct1]
    note T = h6 [THEN conjunct2]
    let ?cw = "cleared (w t) cs st"
    let ?s = "call w lat t cs True st"
    have s: "?s = enter t (lat t) cs 0 ?cw"
      using tm fl by (simp add: call_def advance_idle saveData_start_unfold)
    have stm: "timers ?s = []" using tm by (simp add: s enter_eq cleared_eq split: option.splits)
    have sfl: "inflight ?s = [\<lparr>ready = Rs, w_categories = cs, w_retryCount = 0, w_stage = Lookup\<rparr>]"
      using fl Rs by (simp add: s enter_eq cleared_eq)
    have srm: "remote ?s = remote st"
      and str: "trace ?s = trace st @ save_prefix (w t) cs st @ [Attempt t cs 0]"
      by (simp_all add: s enter_eq cleared_eq)
    let ?rs = "body_requests (w Rb) u cs (remote st)"
    from write_goes_through [where w = w and lat = lat and Rs = Rs and Rb = Rb and u = u
        and T = T and s = "?s" and cs = cs and k = 0, OF stm sfl oks u Rb okb T]
    have "trace (advance w lat T ?s) =
        trace st @ (save_prefix (w t) cs st @ [Attempt t cs 0] @ Remote GetSession # map Remote ?rs)"
      using srm str by simp
    then have "since st (advance w lat T ?s) =
        save_prefix (w t) cs st @ [Attempt t cs 0] @ Remote GetSession # map Remote ?rs"
      by (rule since_append)
    then have "filter is_attempt (since st (advance w lat T ?s)) = [Attempt t cs 0]"
      and "writes (since st (advance w lat T ?s)) = filter is_write ?rs"
      by (simp_all add: writes_requests)
    then show "filter is_attempt (since st (advance w lat T ?s)) = [Attempt t cs 0] \<and>
      writes (since st (advance w lat T ?s)) =
        (if getIsAdminUser (w Rb) (remote st)
         then [UpsertCategories (categoriesPayload u cs), UpsertProblems (problemsPayload u cs)]
              @ delete_requests u cs (remote st)
         else [UpsertProgress (progressPayload u cs)])"
      by (simp only: writes_body_requests)
  qed
  show ?thesis by (intro conjI a b c d i f)
qed

text \<open>
  An instance: 10 ms after a write, well inside the minimum interval, a signed-in
  sub-user makes a forced save. The call upserts the progress rows of its payload;
  the same call without the flag makes no remote write.
\<close>

theorem forceImmediate_bypasses_debounce_witness:
  "1010 - lastSaveTime just_saved < MIN_SAVE_INTERVAL_MS \<and>
   session subuser_env = Some ''u1'' \<and>
   writes (since just_saved (saveData subuser_env 1010 arrays_tree True just_saved)) =
     [UpsertProgress (progressPayload ''u1'' arrays_tree)] \<and>
   writes (since just_saved (saveData subuser_env 1010 arrays_tree False just_saved)) = [] \<and>
   writes (since just_saved (advance (\<lambda>t. subuser_env) (\<lambda>t. 20) 1050
             (call (\<lambda>t. subuser_env) (\<lambda>t. 20) 1010 arrays_tree True just_saved))) =
     [UpsertProgress (progressPayload ''u1'' arrays_tree)]"
proof -
  have h: "session subuser_env = Some ''u1'' \<and> (\<forall>r. fails subuser_env r = None)"
    by (simp add: subuser_env_def)
  have na: "\<not> getIsAdminUser subuser_env (remote just_saved)"
    by (simp add: getIsAdminUser_def subuser_env_def just_saved_def idle_def shared_db_def)
  have l: "1010 - lastSaveTime just_saved < MIN_SAVE_INTERVAL_MS"
    by (simp add: just_saved_def idle_def MIN_SAVE_INTERVAL_MS_def)
  have g: "timers just_saved = [] \<and> inflight just_saved = [] \<and>
      (1030::int) = 1010 + int ((\<lambda>t. 20) (1010::int)) \<and> (1050::int) = 1030 + int ((\<lambda>t. 20) (1030::int)) \<and>
      fails ((\<lambda>t. subuser_env) (1030::int)) GetSession = None \<and>
      session ((\<lambda>t. subuser_env) (1030::int)) = Some ''u1'' \<and>
      (\<forall>r. fails ((\<lambda>t. subuser_env) (1050::int)) r = None) \<and> (1050::int) \<le> 1050"
    by (simp add: just_saved_def idle_def subuser_env_def)
  note th = forceImmediate_bypasses_debounce
      [of just_saved subuser_env 1010 arrays_tree "''u1''" 0 1030 1010 "\<lambda>t. 20" 1050
          "\<lambda>t. subuser_env" 1050]
  have a: "writes (since just_saved (saveData subuser_env 1010 arrays_tree True just_saved)) =
     [UpsertProgress (progressPayload ''u1'' arrays_tree)]"
    using th h na by simp
  have b: "writes (since just_saved (saveData subuser_env 1010 arrays_tree False just_saved)) = []"
    using l by (simp add: saveData_unfold since_def)
  have c: "writes (since just_saved (advance (\<lambda>t. subuser_env) (\<lambda>t. 20) 1050
             (call (\<lambda>t. subuser_env) (\<lambda>t. 20) 1010 arrays_tree True just_saved))) =
     [UpsertProgress (progressPayload ''u1'' arrays_tree)]"
  proof -
    note imp = th [THEN conjunct2, THEN conjunct2, THEN conjunct2, THEN conjunct2, THEN conjunct2]
    from imp [THEN mp, OF g] show ?thesis using na by simp
  qed
  show ?thesis using l h a b c by simp
qed

subsection \<open>C10: one pending debounced write, cancelled by every call; retries are not\<close>

text \<open>
  C10, as the code has it. Let \<open>s\<close> be the state at any time \<open>T\<close> of any run of calls
  from the freshly loaded module, in any world. At most one debounced write is pending
  in \<open>s\<close>, and it is the timer \<^verbatim>\<open>saveTimeout\<close> holds. The first two statements of any
  call of \<^verbatim>\<open>saveData\<close>, debounced or forced, store the snapshot and cancel that timer:
  after them no debounced write is pending, and only then does the call enter its write
  or set its own timer. So after the call the only debounced write pending is the call's
  own, and whatever happens later, every write entered with retry count 0 carries the
  payload of the call: a debounced write superseded by the call never fires. The retry
  timers, which the \<^verbatim>\<open>catch\<close> block sets without keeping their handles, are another
  matter: the call cancels none of them.
\<close>

theorem one_debounced_write_pending:
  assumes "s = advance w lat T (run w lat calls (idle db))"
    and "s' = saveData_start e now l cs force s"
  shows "length (debounced s) \<le> 1 \<and>
         (\<forall>tm \<in> set (debounced s). saveTimeout s = Some (handle tm)) \<and>
         debounced (cleared e cs s) = [] \<and>
         retries (cleared e cs s) = retries s \<and>
         (\<exists>post. since s s' = save_prefix e cs s @ post \<and>
            (post = [Attempt now cs 0] \<or> post = [SetTimeout (nextHandle s) SAVE_DEBOUNCE_MS])) \<and>
         set (debounced s') \<subseteq>
           {\<lparr>handle = nextHandle s, due = now + SAVE_DEBOUNCE_MS, t_categories = cs, t_retryCount = 0\<rparr>} \<and>
         retries s' = retries s \<and>
         set (entered_first (since s' (advance w' lat' T' s'))) \<subseteq> {cs}"
proof -
  have ok: "timers_ok s"
    unfolding assms(1) by (intro timers_ok_advance timers_ok_run timers_ok_idle)
  have a: "length (debounced s) \<le> 1" using ok by (rule timers_ok_one)
  have b: "\<forall>tm \<in> set (debounced s). saveTimeout s = Some (handle tm)"
    using ok timers_ok_held by blast
  have c: "debounced (cleared e cs s) = []" using ok by (rule debounced_cleared)
  have d: "retries (cleared e cs s) = retries s" using ok by (rule retries_cleared)
  have f: "\<exists>post. since s s' = save_prefix e cs s @ post \<and>
            (post = [Attempt now cs 0] \<or> post = [SetTimeout (nextHandle s) SAVE_DEBOUNCE_MS])"
    unfolding assms(2) by (rule saveData_start_trace)
  have g: "set (debounced s') \<subseteq>
           {\<lparr>handle = nextHandle s, due = now + SAVE_DEBOUNCE_MS, t_categories = cs, t_retryCount = 0\<rparr>}"
    and h: "retries s' = retries s"
    using saveData_start_pending [OF ok, of e now l cs force] assms(2) by simp_all
  have "\<forall>tm \<in> set (debounced s'). t_categories tm = cs" using g by auto
  then obtain evs where "trace (advance w' lat' T' s') = trace s' @ evs"
    and "set (entered_first evs) \<subseteq> {cs}"
    using advance_enters_debounced by blast
  then have i: "set (entered_first (since s' (advance w' lat' T' s'))) \<subseteq> {cs}"
    using since_append by metis
  show ?thesis by (intro conjI a b c d f g h i)
qed

text \<open>
  An instance: after a write at 1000 ms a debounced call at 1010 ms sets timer 1. At
  1050 ms that timer is the one debounced write pending, held by \<^verbatim>\<open>saveTimeout\<close>. A
  debounced call at 1060 ms with another payload cancels it and sets timer 2, and only
  the payload of that call is ever written.
\<close>

theorem one_debounced_write_pending_witness:
  "length (debounced (advance (\<lambda>t. subuser_env) (\<lambda>t. 0) 1050
      (run (\<lambda>t. subuser_env) (\<lambda>t. 0)
         [(1000, arrays_tree_open, False), (1010, arrays_tree, False)] (idle shared_db)))) \<le> 1 \<and>
   debounced (advance (\<lambda>t. subuser_env) (\<lambda>t. 0) 1050
      (run (\<lambda>t. subuser_env) (\<lambda>t. 0)
         [(1000, arrays_tree_open, False), (1010, arrays_tree, False)] (idle shared_db))) =
     [\<lparr>handle = 1, due = 1110, t_categories = arrays_tree, t_retryCount = 0\<rparr>] \<and>
   saveTimeout (advance (\<lambda>t. subuser_env) (\<lambda>t. 0) 1050
      (run (\<lambda>t. subuser_env) (\<lambda>t. 0)
         [(1000, arrays_tree_open, False), (1010, arrays_tree, False)] (idle shared_db))) = Some 1 \<and>
   debounced (saveData_start subuser_env 1060 0 arrays_tree_open False
     (advance (\<lambda>t. subuser_env) (\<lambda>t. 0) 1050
        (run (\<lambda>t. subuser_env) (\<lambda>t. 0)
           [(1000, arrays_tree_open, False), (1010, arrays_tree, False)] (idle shared_db)))) =
     [\<lparr>handle = 2, due = 1160, t_categories = arrays_tree_open, t_retryCount = 0\<rparr>] \<and>
   entered_first
     (since
        (saveData_start subuser_env 1060 0 arrays_tree_open False
          (advance (\<lambda>t. subuser_env) (\<lambda>t. 0) 1050
             (run (\<lambda>t. subuser_env) (\<lambda>t. 0)
                [(1000, arrays_tree_open, False), (1010, arrays_tree, False)] (idle shared_db))))
        (advance (\<lambda>t. subuser_env) (\<lambda>t. 0) 5000
          (saveData_start subuser_env 1060 0 arrays_tree_open False
            (advance (\<lambda>t. subuser_env) (\<lambda>t. 0) 1050
               (run (\<lambda>t. subuser_env) (\<lambda>t. 0)
                  [(1000, arrays_tree_open, False), (1010, arrays_tree, False)] (idle shared_db)))))) =
     [arrays_tree_open]"
proof -
  let ?s = "advance (\<lambda>t. subuser_env) (\<lambda>t. 0) 1050
      (run (\<lambda>t. subuser_env) (\<lambda>t. 0)
         [(1000, arrays_tree_open, False), (1010, arrays_tree, False)] (idle shared_db))"
  let ?s' = "saveData_start subuser_env 1060 0 arrays_tree_open False ?s"
  have a: "length (debounced ?s) \<le> 1"
    using one_debounced_write_pending [OF refl refl, of "\<lambda>t. subuser_env" "\<lambda>t. 0" 1050
        "[(1000, arrays_tree_open, False), (1010, arrays_tree, False)]" shared_db]
    by (rule conjunct1)
  have s: "?s =
     \<lparr>localStorage = Snapshot arrays_tree, saveTimeout = Some 1, lastSaveTime = 1000,
      timers = [\<lparr>handle = 1, due = 1110, t_categories = arrays_tree, t_retryCount = 0\<rparr>],
      nextHandle = 2,
      remote = shared_db\<lparr>progress_tbl :=
                 upsert progress_key (progressPayload ''u1'' arrays_tree_open) []\<rparr>,
      trace = [SetItem arrays_tree_open, Attempt 1000 arrays_tree_open 0, Remote GetSession,
               Remote (UpsertProgress (progressPayload ''u1'' arrays_tree_open)),
               SetItem arrays_tree, SetTimeout 1 100],
      inflight = []\<rparr>"
    by (simp add: loop_eval idle_def subuser_env_def shared_db_def)
  have b: "debounced ?s = [\<lparr>handle = 1, due = 1110, t_categories = arrays_tree, t_retryCount = 0\<rparr>]"
    and c: "saveTimeout ?s = Some 1"
    unfolding s by (simp_all add: debounced_def)
  have d: "debounced ?s' = [\<lparr>handle = 2, due = 1160, t_categories = arrays_tree_open, t_retryCount = 0\<rparr>]"
    unfolding s by (simp add: debounced_def loop_eval subuser_env_def)
  have e: "entered_first (since ?s' (advance (\<lambda>t. subuser_env) (\<lambda>t. 0) 5000 ?s')) = [arrays_tree_open]"
    unfolding s by (simp add: loop_eval subuser_env_def shared_db_def)
  show ?thesis by (intro conjI a b c d e)
qed

text \<open>
  C10 as stated fails for a write that is being retried. After a write at 1000 ms a
  debounced call at 1010 ms sets its timer; the timer fires at 1110 ms, the session
  lookup throws for lack of resources, and the \<^verbatim>\<open>catch\<close> block sets a retry timer for
  2110 ms. At 1500 ms no debounced write is pending, the retry is, and a forced call
  saves a newer tree, in which the problem is not completed. The retry is not cancelled:
  at 2110 ms the superseded write is entered again with its stale payload, and it
  overwrites the row of the newer save.
\<close>

theorem stale_retry_fires_after_later_save_counterexample:
  "debounced (advance outage_world (\<lambda>t. 0) 1500
      (run outage_world (\<lambda>t. 0)
         [(1000, arrays_tree_open, False), (1010, arrays_tree, False)] (idle shared_db))) = [] \<and>
   retries (advance outage_world (\<lambda>t. 0) 1500
      (run outage_world (\<lambda>t. 0)
         [(1000, arrays_tree_open, False), (1010, arrays_tree, False)] (idle shared_db))) =
     [\<lparr>handle = 2, due = 2110, t_categories = arrays_tree, t_retryCount = 1\<rparr>] \<and>
   filter is_attempt
     (since (idle shared_db) (advance outage_world (\<lambda>t. 0) 2110
        (run outage_world (\<lambda>t. 0)
           [(1000, arrays_tree_open, False), (1010, arrays_tree, False),
            (1500, arrays_tree_open, True)] (idle shared_db)))) =
     [Attempt 1000 arrays_tree_open 0, Attempt 1110 arrays_tree 0,
      Attempt 1500 arrays_tree_open 0, Attempt 2110 arrays_tree 1] \<and>
   writes
     (since (idle shared_db) (advance outage_world (\<lambda>t. 0) 2110
        (run outage_world (\<lambda>t. 0)
           [(1000, arrays_tree_open, False), (1010, arrays_tree, False),
            (1500, arrays_tree_open, True)] (idle shared_db)))) =
     [UpsertProgress (progressPayload ''u1'' arrays_tree_open),
      UpsertProgress (progressPayload ''u1'' arrays_tree_open),
      UpsertProgress (progressPayload ''u1'' arrays_tree)] \<and>
   progress_tbl (remote (advance outage_world (\<lambda>t. 0) 2110
        (run outage_world (\<lambda>t. 0)
           [(1000, arrays_tree_open, False), (1010, arrays_tree, False),
            (1500, arrays_tree_open, True)] (idle shared_db)))) =
     [\<lparr>up_user_id = ''u1'', up_problem_id = ''p1'', up_completed = True, up_note = None\<rparr>]"
  by (simp add: loop_eval debounced_def retries_def outage_world_def lookup_failing_env_def
        subuser_env_def idle_def shared_db_def message_includes.simps
        progressPayload_def arrays_tree_def arrays_tree_open_def upsert_def upsert_row_def
        progress_key_def)

end
